theory Spec2Isabelle
  imports Complex_Main "HOL-Library.Sublist"
begin

section \<open>Values, errors and the pull contract\<close>

text \<open>
  Items that travel through a stream are JavaScript values. The only distinction the
  library ever makes is \<^verbatim>\<open>Array.isArray(page)\<close>, so a value is either an array of
  values or something that is not an array (\<open>Atom\<close>, with an arbitrary payload).
\<close>

datatype 'a jsval = Atom 'a | Array "'a jsval list"

fun isArray :: "'a jsval \<Rightarrow> bool" where
  "isArray (Array items) = True"
| "isArray (Atom a) = False"

text \<open>The two exceptions the library throws, with their messages.\<close>

datatype error = RangeError string | TypeError string

text \<open>
  \<^verbatim>\<open>IteratorResult<T>\<close>: \<^verbatim>\<open>{ done: false, value }\<close> or \<^verbatim>\<open>{ done: true, value: undefined }\<close>.
\<close>

datatype 'v iter_result = IterValue 'v | IterDone

text \<open>
  One call of \<^verbatim>\<open>next()\<close> or \<^verbatim>\<open>return()\<close> on an iterator whose mutable state has type \<open>'s\<close>:
  the promise resolves (\<open>Inr\<close>) or rejects (\<open>Inl\<close>) and the iterator is left in a new
  state; \<open>None\<close> is a promise that never settles (a loop that pulls for ever).
\<close>

type_synonym ('s, 'v) pull = "'s \<Rightarrow> ((error + 'v iter_result) \<times> 's) option"

section \<open>The class \<^verbatim>\<open>AsyncStream\<close>\<close>

text \<open>
  An \<^verbatim>\<open>AsyncStream\<close> holds the private field \<^verbatim>\<open>#iter\<close>. The model keeps the two methods
  of \<^verbatim>\<open>#iter\<close> the class uses (\<^verbatim>\<open>return\<close> may be missing) together with the current
  state of the object \<^verbatim>\<open>#iter\<close> refers to. Every operation returns the stream with
  the state updated: whoever holds the stream afterwards sees the cursor where the
  last pull left it.
\<close>

record ('s, 'v) AsyncStream =
  iter_next :: "'s \<Rightarrow> ((error + 'v iter_result) \<times> 's) option"
  iter_return :: "('s \<Rightarrow> ((error + 'v iter_result) \<times> 's) option) option"
  iter_state :: 's

text \<open>\<^verbatim>\<open>next(value) { return this.#iter.next(value); }\<close>\<close>

definition AsyncStream_next ::
  "('s, 'v) AsyncStream \<Rightarrow> ((error + 'v iter_result) \<times> ('s, 'v) AsyncStream) option" where
  "AsyncStream_next this =
     map_option (\<lambda>(r, s). (r, this\<lparr>iter_state := s\<rparr>)) (iter_next this (iter_state this))"

text \<open>
  \<^verbatim>\<open>return(value) { return this.#iter.return ? this.#iter.return(value)
                         : Promise.resolve({ done: true, value: undefined }); }\<close>
\<close>

definition AsyncStream_return ::
  "('s, 'v) AsyncStream \<Rightarrow> ((error + 'v iter_result) \<times> ('s, 'v) AsyncStream) option" where
  "AsyncStream_return this =
     (case iter_return this of
        Some ret \<Rightarrow> map_option (\<lambda>(r, s). (r, this\<lparr>iter_state := s\<rparr>)) (ret (iter_state this))
      | None \<Rightarrow> Some (Inr IterDone, this))"

section \<open>A finite source\<close>

text \<open>
  The finite sources of the test suite:
  \<^verbatim>\<open>
  function getGenerator<T>(returns: T[]) {
      return async function* () { for (const item of returns) { yield item; } };
  }
  \<close>
  The generator object is described by the items it has not yielded yet. \<open>pulls\<close> counts
  the calls of \<^verbatim>\<open>next()\<close> the generator has received; it is an observer (what a spy on
  \<^verbatim>\<open>next\<close> would record) and influences nothing.
\<close>

record 'v array_generator =
  pending :: "'v list"
  pulls :: nat

definition getGenerator_next :: "('v array_generator, 'v) pull" where
  "getGenerator_next g =
     (case pending g of
        [] \<Rightarrow> Some (Inr IterDone, g\<lparr>pulls := Suc (pulls g)\<rparr>)
      | item # rest \<Rightarrow> Some (Inr (IterValue item), \<lparr>pending = rest, pulls = Suc (pulls g)\<rparr>))"

text \<open>\<^verbatim>\<open>return()\<close> on a generator object completes it: nothing more is yielded.\<close>

definition getGenerator_return :: "('v array_generator, 'v) pull" where
  "getGenerator_return g = Some (Inr IterDone, g\<lparr>pending := []\<rparr>)"

text \<open>\<^verbatim>\<open>new AsyncStream(g)\<close> for such a generator object \<open>g\<close>.\<close>

definition generator_stream :: "'v array_generator \<Rightarrow> ('v array_generator, 'v) AsyncStream" where
  "generator_stream g =
     \<lparr>iter_next = getGenerator_next, iter_return = Some getGenerator_return, iter_state = g\<rparr>"

text \<open>\<^verbatim>\<open>new AsyncStream(getGenerator(returns)())\<close>: a fresh generator, never pulled.\<close>

definition getGenerator :: "'v list \<Rightarrow> ('v array_generator, 'v) AsyncStream" where
  "getGenerator returns = generator_stream \<lparr>pending = returns, pulls = 0\<rparr>"

section \<open>Terminal operations\<close>

text \<open>
  \<^verbatim>\<open>
  async collect() {
      const results = [];
      for await (const item of this) { results.push(item); }
      return results;
  }
  \<close>
  \<^verbatim>\<open>for await (... of this)\<close> asks \<^verbatim>\<open>this[Symbol.asyncIterator]()\<close>, which is \<^verbatim>\<open>this\<close>,
  and calls its \<^verbatim>\<open>next()\<close> until the result is done. A rejected \<^verbatim>\<open>next()\<close> leaves the
  loop with that error.
\<close>

partial_function (option) collect_loop ::
  "'v list \<Rightarrow> ('s, 'v) AsyncStream \<Rightarrow> ((error + 'v list) \<times> ('s, 'v) AsyncStream) option" where
  "collect_loop results this =
     Option.bind (AsyncStream_next this) (\<lambda>(r, this').
       case r of
         Inl e \<Rightarrow> Some (Inl e, this')
       | Inr IterDone \<Rightarrow> Some (Inr results, this')
       | Inr (IterValue item) \<Rightarrow> collect_loop (results @ [item]) this')"

declare collect_loop.simps [code]

definition collect ::
  "('s, 'v) AsyncStream \<Rightarrow> ((error + 'v list) \<times> ('s, 'v) AsyncStream) option" where
  "collect this = collect_loop [] this"

section \<open>\<^verbatim>\<open>pack\<close>\<close>

text \<open>
  \<^verbatim>\<open>
  pack(packageSize: number) {
      const self = this;
      if (packageSize <= 0) throw new RangeError('packageSize must be a positive integer.');
      async function* generator() {
          let buffer = [];
          for await (const item of self) {
              buffer.push(item);
              if (buffer.length === packageSize) { yield buffer; buffer = []; }
          }
          if (buffer.length > 0) { yield buffer; }
      }
      return new AsyncStream(generator());
  }
  \<close>
  A \<^verbatim>\<open>number\<close> is modelled as a real (every finite double is one; \<^verbatim>\<open>NaN\<close> and the
  infinities are left out). The frame of the generator is the place where it is
  suspended, its local \<^verbatim>\<open>buffer\<close> and the captured \<^verbatim>\<open>self\<close>.
\<close>

datatype pack_pc = PackStart | PackYieldFull | PackYieldRest | PackCompleted

record ('s, 'a) pack_frame =
  pack_pc :: pack_pc
  pack_buffer :: "'a jsval list"
  pack_self :: "('s, 'a jsval) AsyncStream"

text \<open>The \<^verbatim>\<open>for await\<close> loop, entered with the current buffer, up to the next \<^verbatim>\<open>yield\<close>.\<close>

partial_function (option) pack_loop ::
  "real \<Rightarrow> ('s, 'a) pack_frame \<Rightarrow> ((error + 'a jsval iter_result) \<times> ('s, 'a) pack_frame) option" where
  "pack_loop packageSize f =
     Option.bind (AsyncStream_next (pack_self f)) (\<lambda>(r, self').
       case r of
         Inl e \<Rightarrow> Some (Inl e, f\<lparr>pack_pc := PackCompleted, pack_self := self'\<rparr>)
       | Inr IterDone \<Rightarrow>
           (if length (pack_buffer f) > 0
            then Some (Inr (IterValue (Array (pack_buffer f))),
                       f\<lparr>pack_pc := PackYieldRest, pack_self := self'\<rparr>)
            else Some (Inr IterDone, f\<lparr>pack_pc := PackCompleted, pack_self := self'\<rparr>))
       | Inr (IterValue item) \<Rightarrow>
           (let buffer = pack_buffer f @ [item] in
            if real (length buffer) = packageSize
            then Some (Inr (IterValue (Array buffer)),
                       f\<lparr>pack_pc := PackYieldFull, pack_buffer := buffer, pack_self := self'\<rparr>)
            else pack_loop packageSize (f\<lparr>pack_buffer := buffer, pack_self := self'\<rparr>)))"

declare pack_loop.simps [code]

definition pack_next :: "real \<Rightarrow> (('s, 'a) pack_frame, 'a jsval) pull" where
  "pack_next packageSize f =
     (case pack_pc f of
        PackStart \<Rightarrow> pack_loop packageSize (f\<lparr>pack_buffer := []\<rparr>)
      | PackYieldFull \<Rightarrow> pack_loop packageSize (f\<lparr>pack_buffer := []\<rparr>)
      | PackYieldRest \<Rightarrow> Some (Inr IterDone, f\<lparr>pack_pc := PackCompleted\<rparr>)
      | PackCompleted \<Rightarrow> Some (Inr IterDone, f))"

text \<open>
  \<^verbatim>\<open>return()\<close> on the generator object: suspended inside the \<^verbatim>\<open>for await\<close> loop it
  leaves the loop, which closes the iterator of the loop (\<^verbatim>\<open>self.return()\<close>);
  elsewhere it only completes the generator.
\<close>

definition pack_return :: "(('s, 'a) pack_frame, 'a jsval) pull" where
  "pack_return f =
     (case pack_pc f of
        PackYieldFull \<Rightarrow>
          Option.bind (AsyncStream_return (pack_self f)) (\<lambda>(r, self').
            Some (case r of Inl e \<Rightarrow> Inl e | Inr _ \<Rightarrow> Inr IterDone,
                  f\<lparr>pack_pc := PackCompleted, pack_self := self'\<rparr>))
      | _ \<Rightarrow> Some (Inr IterDone, f\<lparr>pack_pc := PackCompleted\<rparr>))"

text \<open>\<^verbatim>\<open>new AsyncStream(generator())\<close> for a generator object of \<^verbatim>\<open>pack\<close> in state \<open>f\<close>.\<close>

definition pack_stream ::
  "real \<Rightarrow> ('s, 'a) pack_frame \<Rightarrow> (('s, 'a) pack_frame, 'a jsval) AsyncStream" where
  "pack_stream packageSize f =
     \<lparr>iter_next = pack_next packageSize, iter_return = Some pack_return, iter_state = f\<rparr>"

definition pack ::
  "real \<Rightarrow> ('s, 'a jsval) AsyncStream \<Rightarrow> error + (('s, 'a) pack_frame, 'a jsval) AsyncStream" where
  "pack packageSize self =
     (if packageSize \<le> 0 then Inl (RangeError ''packageSize must be a positive integer.'')
      else Inr (pack_stream packageSize
                  \<lparr>pack_pc = PackStart, pack_buffer = [], pack_self = self\<rparr>))"

section \<open>\<^verbatim>\<open>repack\<close> and \<^verbatim>\<open>flat\<close>\<close>

text \<open>The elements of an array (\<^verbatim>\<open>...page\<close>, \<^verbatim>\<open>for (const item of page)\<close>).\<close>

fun elements :: "'a jsval \<Rightarrow> 'a jsval list" where
  "elements (Array items) = items"
| "elements (Atom a) = []"

text \<open>
  \<^verbatim>\<open>
  repack(packageSize: number) {
      const self = this;
      if (packageSize <= 0) throw new RangeError('packageSize must be a positive integer.');
      async function* generator() {
          let buffer = [];
          for await (const page of self) {
              if (!Array.isArray(page))
                  throw new TypeError('Input async generator must yield arrays for repack.');
              buffer.push(...page);
              while (buffer.length >= packageSize) {
                  yield buffer.slice(0, packageSize);
                  buffer = buffer.slice(packageSize);
              }
          }
          if (buffer.length > 0) { yield buffer; }
      }
      return new AsyncStream(generator());
  }
  \<close>
  \<^verbatim>\<open>slice\<close> truncates its arguments to integers. A \<^verbatim>\<open>throw\<close> inside the body of the
  \<^verbatim>\<open>for await\<close> loop leaves the loop, and leaving the loop early closes its iterator:
  \<^verbatim>\<open>self.return()\<close> is called and awaited, its outcome is dropped, and the error of the
  \<^verbatim>\<open>throw\<close> is what the pending \<^verbatim>\<open>next()\<close> rejects with.
\<close>

definition slice_index :: "real \<Rightarrow> nat" where
  "slice_index packageSize = nat \<lfloor>packageSize\<rfloor>"

datatype repack_pc = RepackStart | RepackYieldSlice | RepackYieldRest | RepackCompleted

record ('s, 'a) repack_frame =
  repack_pc :: repack_pc
  repack_buffer :: "'a jsval list"
  repack_self :: "('s, 'a jsval) AsyncStream"

partial_function (option) repack_loop ::
  "real \<Rightarrow> ('s, 'a) repack_frame
     \<Rightarrow> ((error + 'a jsval iter_result) \<times> ('s, 'a) repack_frame) option" where
  "repack_loop packageSize f =
     Option.bind (AsyncStream_next (repack_self f)) (\<lambda>(r, self').
       case r of
         Inl e \<Rightarrow> Some (Inl e, f\<lparr>repack_pc := RepackCompleted, repack_self := self'\<rparr>)
       | Inr IterDone \<Rightarrow>
           (if length (repack_buffer f) > 0
            then Some (Inr (IterValue (Array (repack_buffer f))),
                       f\<lparr>repack_pc := RepackYieldRest, repack_self := self'\<rparr>)
            else Some (Inr IterDone, f\<lparr>repack_pc := RepackCompleted, repack_self := self'\<rparr>))
       | Inr (IterValue page) \<Rightarrow>
           (if \<not> isArray page
            then Option.bind (AsyncStream_return self') (\<lambda>(outcome, self'').
                   Some (Inl (TypeError ''Input async generator must yield arrays for repack.''),
                         f\<lparr>repack_pc := RepackCompleted, repack_self := self''\<rparr>))
            else (let buffer = repack_buffer f @ elements page in
                  if real (length buffer) \<ge> packageSize
                  then Some (Inr (IterValue (Array (take (slice_index packageSize) buffer))),
                             f\<lparr>repack_pc := RepackYieldSlice, repack_buffer := buffer,
                               repack_self := self'\<rparr>)
                  else repack_loop packageSize
                         (f\<lparr>repack_buffer := buffer, repack_self := self'\<rparr>))))"

declare repack_loop.simps [code]

definition repack_next :: "real \<Rightarrow> (('s, 'a) repack_frame, 'a jsval) pull" where
  "repack_next packageSize f =
     (case repack_pc f of
        RepackStart \<Rightarrow> repack_loop packageSize (f\<lparr>repack_buffer := []\<rparr>)
      | RepackYieldSlice \<Rightarrow>
          (let buffer = drop (slice_index packageSize) (repack_buffer f) in
           if real (length buffer) \<ge> packageSize
           then Some (Inr (IterValue (Array (take (slice_index packageSize) buffer))),
                      f\<lparr>repack_buffer := buffer\<rparr>)
           else repack_loop packageSize (f\<lparr>repack_buffer := buffer\<rparr>))
      | RepackYieldRest \<Rightarrow> Some (Inr IterDone, f\<lparr>repack_pc := RepackCompleted\<rparr>)
      | RepackCompleted \<Rightarrow> Some (Inr IterDone, f))"

definition repack_return :: "(('s, 'a) repack_frame, 'a jsval) pull" where
  "repack_return f =
     (case repack_pc f of
        RepackYieldSlice \<Rightarrow>
          Option.bind (AsyncStream_return (repack_self f)) (\<lambda>(r, self').
            Some (case r of Inl e \<Rightarrow> Inl e | Inr _ \<Rightarrow> Inr IterDone,
                  f\<lparr>repack_pc := RepackCompleted, repack_self := self'\<rparr>))
      | _ \<Rightarrow> Some (Inr IterDone, f\<lparr>repack_pc := RepackCompleted\<rparr>))"

definition repack_stream ::
  "real \<Rightarrow> ('s, 'a) repack_frame \<Rightarrow> (('s, 'a) repack_frame, 'a jsval) AsyncStream" where
  "repack_stream packageSize f =
     \<lparr>iter_next = repack_next packageSize, iter_return = Some repack_return, iter_state = f\<rparr>"

definition repack ::
  "real \<Rightarrow> ('s, 'a jsval) AsyncStream
     \<Rightarrow> error + (('s, 'a) repack_frame, 'a jsval) AsyncStream" where
  "repack packageSize self =
     (if packageSize \<le> 0 then Inl (RangeError ''packageSize must be a positive integer.'')
      else Inr (repack_stream packageSize
                  \<lparr>repack_pc = RepackStart, repack_buffer = [], repack_self = self\<rparr>))"

text \<open>
  \<^verbatim>\<open>
  flat() {
      const self = this;
      async function* generator() {
          for await (const page of self) {
              if (!Array.isArray(page))
                  throw new TypeError('Input async generator must yield arrays for flattening.');
              for (const item of page) { yield item; }
          }
      }
      return new AsyncStream(generator());
  }
  \<close>
  \<open>flat_page\<close> holds the items of the current page the inner loop has not reached yet.
\<close>

datatype flat_pc = FlatStart | FlatYield | FlatCompleted

record ('s, 'a) flat_frame =
  flat_pc :: flat_pc
  flat_page :: "'a jsval list"
  flat_self :: "('s, 'a jsval) AsyncStream"

partial_function (option) flat_loop ::
  "('s, 'a) flat_frame \<Rightarrow> ((error + 'a jsval iter_result) \<times> ('s, 'a) flat_frame) option" where
  "flat_loop f =
     Option.bind (AsyncStream_next (flat_self f)) (\<lambda>(r, self').
       case r of
         Inl e \<Rightarrow> Some (Inl e, f\<lparr>flat_pc := FlatCompleted, flat_self := self'\<rparr>)
       | Inr IterDone \<Rightarrow> Some (Inr IterDone, f\<lparr>flat_pc := FlatCompleted, flat_self := self'\<rparr>)
       | Inr (IterValue page) \<Rightarrow>
           (if \<not> isArray page
            then Option.bind (AsyncStream_return self') (\<lambda>(outcome, self'').
                   Some (Inl (TypeError
                                ''Input async generator must yield arrays for flattening.''),
                         f\<lparr>flat_pc := FlatCompleted, flat_self := self''\<rparr>))
            else (case elements page of
                    [] \<Rightarrow> flat_loop (f\<lparr>flat_page := [], flat_self := self'\<rparr>)
                  | item # rest \<Rightarrow>
                      Some (Inr (IterValue item),
                            f\<lparr>flat_pc := FlatYield, flat_page := rest, flat_self := self'\<rparr>))))"

declare flat_loop.simps [code]

definition flat_next :: "(('s, 'a) flat_frame, 'a jsval) pull" where
  "flat_next f =
     (case flat_pc f of
        FlatStart \<Rightarrow> flat_loop f
      | FlatYield \<Rightarrow>
          (case flat_page f of
             [] \<Rightarrow> flat_loop f
           | item # rest \<Rightarrow> Some (Inr (IterValue item), f\<lparr>flat_page := rest\<rparr>))
      | FlatCompleted \<Rightarrow> Some (Inr IterDone, f))"

definition flat_return :: "(('s, 'a) flat_frame, 'a jsval) pull" where
  "flat_return f =
     (case flat_pc f of
        FlatYield \<Rightarrow>
          Option.bind (AsyncStream_return (flat_self f)) (\<lambda>(r, self').
            Some (case r of Inl e \<Rightarrow> Inl e | Inr _ \<Rightarrow> Inr IterDone,
                  f\<lparr>flat_pc := FlatCompleted, flat_self := self'\<rparr>))
      | _ \<Rightarrow> Some (Inr IterDone, f\<lparr>flat_pc := FlatCompleted\<rparr>))"

definition flat_stream :: "('s, 'a) flat_frame \<Rightarrow> (('s, 'a) flat_frame, 'a jsval) AsyncStream" where
  "flat_stream f = \<lparr>iter_next = flat_next, iter_return = Some flat_return, iter_state = f\<rparr>"

definition flat :: "('s, 'a jsval) AsyncStream \<Rightarrow> (('s, 'a) flat_frame, 'a jsval) AsyncStream" where
  "flat self = flat_stream \<lparr>flat_pc = FlatStart, flat_page = [], flat_self = self\<rparr>"

section \<open>\<^verbatim>\<open>filter\<close> and \<^verbatim>\<open>forEach\<close>\<close>

text \<open>
  A callback of the user may have effects of its own (the mock functions of the tests
  record their calls). It is a function of the state it can reach, \<open>'u\<close>, the item and
  the index, and returns its result with the new state. Only callbacks that resolve are
  modelled.
  \<^verbatim>\<open>
  filter(predicate: (item: T, index: number) => boolean | Promise<boolean>) {
      const self = this;
      async function* generator() {
          let index = 0;
          for await (const item of self) {
              if (await predicate(item, index)) { yield item; }
              index++;
          }
      }
      return new AsyncStream(generator());
  }
  \<close>
\<close>

datatype filter_pc = FilterStart | FilterYield | FilterCompleted

record ('s, 'v, 'u) filter_frame =
  filter_pc :: filter_pc
  filter_index :: nat
  filter_env :: 'u
  filter_self :: "('s, 'v) AsyncStream"

partial_function (option) filter_loop ::
  "('u \<Rightarrow> 'v \<Rightarrow> nat \<Rightarrow> bool \<times> 'u) \<Rightarrow> ('s, 'v, 'u) filter_frame
     \<Rightarrow> ((error + 'v iter_result) \<times> ('s, 'v, 'u) filter_frame) option" where
  "filter_loop predicate f =
     Option.bind (AsyncStream_next (filter_self f)) (\<lambda>(r, self').
       case r of
         Inl e \<Rightarrow> Some (Inl e, f\<lparr>filter_pc := FilterCompleted, filter_self := self'\<rparr>)
       | Inr IterDone \<Rightarrow>
           Some (Inr IterDone, f\<lparr>filter_pc := FilterCompleted, filter_self := self'\<rparr>)
       | Inr (IterValue item) \<Rightarrow>
           (case predicate (filter_env f) item (filter_index f) of
              (truthy, env) \<Rightarrow>
                if truthy
                then Some (Inr (IterValue item),
                           f\<lparr>filter_pc := FilterYield, filter_env := env, filter_self := self'\<rparr>)
                else filter_loop predicate
                       (f\<lparr>filter_index := Suc (filter_index f), filter_env := env,
                          filter_self := self'\<rparr>)))"

declare filter_loop.simps [code]

definition filter_next ::
  "('u \<Rightarrow> 'v \<Rightarrow> nat \<Rightarrow> bool \<times> 'u) \<Rightarrow> (('s, 'v, 'u) filter_frame, 'v) pull" where
  "filter_next predicate f =
     (case filter_pc f of
        FilterStart \<Rightarrow> filter_loop predicate (f\<lparr>filter_index := 0\<rparr>)
      | FilterYield \<Rightarrow> filter_loop predicate (f\<lparr>filter_index := Suc (filter_index f)\<rparr>)
      | FilterCompleted \<Rightarrow> Some (Inr IterDone, f))"

definition filter_return :: "(('s, 'v, 'u) filter_frame, 'v) pull" where
  "filter_return f =
     (case filter_pc f of
        FilterYield \<Rightarrow>
          Option.bind (AsyncStream_return (filter_self f)) (\<lambda>(r, self').
            Some (case r of Inl e \<Rightarrow> Inl e | Inr _ \<Rightarrow> Inr IterDone,
                  f\<lparr>filter_pc := FilterCompleted, filter_self := self'\<rparr>))
      | _ \<Rightarrow> Some (Inr IterDone, f\<lparr>filter_pc := FilterCompleted\<rparr>))"

definition filter_stream ::
  "('u \<Rightarrow> 'v \<Rightarrow> nat \<Rightarrow> bool \<times> 'u) \<Rightarrow> ('s, 'v, 'u) filter_frame
     \<Rightarrow> (('s, 'v, 'u) filter_frame, 'v) AsyncStream" where
  "filter_stream predicate f =
     \<lparr>iter_next = filter_next predicate, iter_return = Some filter_return, iter_state = f\<rparr>"

text \<open>\<open>env\<close> is the state the predicate can reach when the stage is built.\<close>

definition filter_s ::
  "('u \<Rightarrow> 'v \<Rightarrow> nat \<Rightarrow> bool \<times> 'u) \<Rightarrow> 'u \<Rightarrow> ('s, 'v) AsyncStream
     \<Rightarrow> (('s, 'v, 'u) filter_frame, 'v) AsyncStream" where
  "filter_s predicate env self =
     filter_stream predicate
       \<lparr>filter_pc = FilterStart, filter_index = 0, filter_env = env, filter_self = self\<rparr>"

text \<open>A predicate without effects of its own, observed by a spy that records every call.\<close>

definition spy :: "('v \<Rightarrow> nat \<Rightarrow> bool) \<Rightarrow> ('v \<times> nat) list \<Rightarrow> 'v \<Rightarrow> nat \<Rightarrow> bool \<times> ('v \<times> nat) list" where
  "spy p calls item index = (p item index, calls @ [(item, index)])"





section \<open>\<^verbatim>\<open>skip\<close>, \<^verbatim>\<open>take\<close> and \<^verbatim>\<open>takeLast\<close>\<close>

text \<open>
  \<^verbatim>\<open>
  skip(n: number) {
      const self = this;
      if (n < 0) throw new RangeError('n must be a non-negative integer.');
      async function* generator() {
          let count = 0;
          if (n > 0) {
              while (count < n) {
                  const { done } = await self.next();
                  if (done) { return; }
                  count++;
              }
          }
          for await (const item of self) { yield item; }
      }
      return new AsyncStream(generator());
  }
  \<close>
\<close>

datatype skip_pc = SkipStart | SkipYield | SkipCompleted

record ('s, 'v) skip_frame =
  skip_pc :: skip_pc
  skip_count :: nat
  skip_self :: "('s, 'v) AsyncStream"

text \<open>One round of the \<^verbatim>\<open>for await\<close> loop, which yields every item it gets.\<close>

definition skip_pass :: "(('s, 'v) skip_frame, 'v) pull" where
  "skip_pass f =
     Option.bind (AsyncStream_next (skip_self f)) (\<lambda>(r, self').
       case r of
         Inl e \<Rightarrow> Some (Inl e, f\<lparr>skip_pc := SkipCompleted, skip_self := self'\<rparr>)
       | Inr IterDone \<Rightarrow> Some (Inr IterDone, f\<lparr>skip_pc := SkipCompleted, skip_self := self'\<rparr>)
       | Inr (IterValue item) \<Rightarrow>
           Some (Inr (IterValue item), f\<lparr>skip_pc := SkipYield, skip_self := self'\<rparr>))"

text \<open>The \<^verbatim>\<open>while\<close> loop, followed by the first round of the \<^verbatim>\<open>for await\<close> loop.\<close>

partial_function (option) skip_while ::
  "real \<Rightarrow> ('s, 'v) skip_frame \<Rightarrow> ((error + 'v iter_result) \<times> ('s, 'v) skip_frame) option" where
  "skip_while n f =
     (if real (skip_count f) < n
      then Option.bind (AsyncStream_next (skip_self f)) (\<lambda>(r, self').
             case r of
               Inl e \<Rightarrow> Some (Inl e, f\<lparr>skip_pc := SkipCompleted, skip_self := self'\<rparr>)
             | Inr IterDone \<Rightarrow>
                 Some (Inr IterDone, f\<lparr>skip_pc := SkipCompleted, skip_self := self'\<rparr>)
             | Inr (IterValue item) \<Rightarrow>
                 skip_while n (f\<lparr>skip_count := Suc (skip_count f), skip_self := self'\<rparr>))
      else skip_pass f)"

declare skip_while.simps [code]

definition skip_next :: "real \<Rightarrow> (('s, 'v) skip_frame, 'v) pull" where
  "skip_next n f =
     (case skip_pc f of
        SkipStart \<Rightarrow>
          (if n > 0 then skip_while n (f\<lparr>skip_count := 0\<rparr>) else skip_pass (f\<lparr>skip_count := 0\<rparr>))
      | SkipYield \<Rightarrow> skip_pass f
      | SkipCompleted \<Rightarrow> Some (Inr IterDone, f))"

definition skip_return :: "(('s, 'v) skip_frame, 'v) pull" where
  "skip_return f =
     (case skip_pc f of
        SkipYield \<Rightarrow>
          Option.bind (AsyncStream_return (skip_self f)) (\<lambda>(r, self').
            Some (case r of Inl e \<Rightarrow> Inl e | Inr _ \<Rightarrow> Inr IterDone,
                  f\<lparr>skip_pc := SkipCompleted, skip_self := self'\<rparr>))
      | _ \<Rightarrow> Some (Inr IterDone, f\<lparr>skip_pc := SkipCompleted\<rparr>))"

definition skip_stream ::
  "real \<Rightarrow> ('s, 'v) skip_frame \<Rightarrow> (('s, 'v) skip_frame, 'v) AsyncStream" where
  "skip_stream n f = \<lparr>iter_next = skip_next n, iter_return = Some skip_return, iter_state = f\<rparr>"

definition skip ::
  "real \<Rightarrow> ('s, 'v) AsyncStream \<Rightarrow> error + (('s, 'v) skip_frame, 'v) AsyncStream" where
  "skip n self =
     (if n < 0 then Inl (RangeError ''n must be a non-negative integer.'')
      else Inr (skip_stream n \<lparr>skip_pc = SkipStart, skip_count = 0, skip_self = self\<rparr>))"

text \<open>
  \<^verbatim>\<open>
  take(n: number) {
      const self = this;
      if (n < 0) throw new RangeError('n must be a non-negative integer.');
      if (n === 0) return self;
      async function* generator() {
          for (let count = 0; count < n; count++) {
              const { value, done } = await self.next();
              if (done) { break; }
              yield value;
          }
      }
      return new AsyncStream(generator());
  }
  \<close>
  The loop calls \<^verbatim>\<open>self.next()\<close> itself: there is no \<^verbatim>\<open>for await\<close>, and nothing closes
  \<^verbatim>\<open>self\<close> when the generator ends.
\<close>

datatype take_pc = TakeStart | TakeYield | TakeCompleted

record ('s, 'v) take_frame =
  take_pc :: take_pc
  take_count :: nat
  take_self :: "('s, 'v) AsyncStream"

text \<open>The test \<^verbatim>\<open>count < n\<close> and the body of the loop, up to \<^verbatim>\<open>yield\<close> or \<^verbatim>\<open>break\<close>.\<close>

definition take_round :: "real \<Rightarrow> (('s, 'v) take_frame, 'v) pull" where
  "take_round n f =
     (if real (take_count f) < n
      then Option.bind (AsyncStream_next (take_self f)) (\<lambda>(r, self').
             case r of
               Inl e \<Rightarrow> Some (Inl e, f\<lparr>take_pc := TakeCompleted, take_self := self'\<rparr>)
             | Inr IterDone \<Rightarrow>
                 Some (Inr IterDone, f\<lparr>take_pc := TakeCompleted, take_self := self'\<rparr>)
             | Inr (IterValue v) \<Rightarrow>
                 Some (Inr (IterValue v), f\<lparr>take_pc := TakeYield, take_self := self'\<rparr>))
      else Some (Inr IterDone, f\<lparr>take_pc := TakeCompleted\<rparr>))"

definition take_next :: "real \<Rightarrow> (('s, 'v) take_frame, 'v) pull" where
  "take_next n f =
     (case take_pc f of
        TakeStart \<Rightarrow> take_round n (f\<lparr>take_count := 0\<rparr>)
      | TakeYield \<Rightarrow> take_round n (f\<lparr>take_count := Suc (take_count f)\<rparr>)
      | TakeCompleted \<Rightarrow> Some (Inr IterDone, f))"

definition take_return :: "(('s, 'v) take_frame, 'v) pull" where
  "take_return f = Some (Inr IterDone, f\<lparr>take_pc := TakeCompleted\<rparr>)"

definition take_stream ::
  "real \<Rightarrow> ('s, 'v) take_frame \<Rightarrow> (('s, 'v) take_frame, 'v) AsyncStream" where
  "take_stream n f = \<lparr>iter_next = take_next n, iter_return = Some take_return, iter_state = f\<rparr>"

text \<open>
  What \<^verbatim>\<open>take\<close> returns is \<^verbatim>\<open>self\<close>, the object it was called on, or a new stream
  around a new generator.
\<close>

datatype ('s, 'v) taken =
  Self "('s, 'v) AsyncStream"
| Taking "(('s, 'v) take_frame, 'v) AsyncStream"

definition take_s :: "real \<Rightarrow> ('s, 'v) AsyncStream \<Rightarrow> error + ('s, 'v) taken" where
  "take_s n self =
     (if n < 0 then Inl (RangeError ''n must be a non-negative integer.'')
      else if n = 0 then Inr (Self self)
      else Inr (Taking (take_stream n
                          \<lparr>take_pc = TakeStart, take_count = 0, take_self = self\<rparr>)))"

text \<open>
  \<^verbatim>\<open>
  takeLast(n: number) {
      const self = this;
      if (n <= 0) throw new RangeError('n must be a positive integer.');
      async function* generator() {
          const results = [];
          for await (const item of self) {
              results.push(item);
              if (results.length > n) { results.shift(); }
          }
          for (const item of results) { yield item; }
      }
      return new AsyncStream(generator());
  }
  \<close>
  \<open>takeLast_rest\<close> holds the items of \<^verbatim>\<open>results\<close> the second loop has not reached yet.
\<close>

datatype takeLast_pc = TakeLastStart | TakeLastYield | TakeLastCompleted

record ('s, 'v) takeLast_frame =
  takeLast_pc :: takeLast_pc
  takeLast_results :: "'v list"
  takeLast_rest :: "'v list"
  takeLast_self :: "('s, 'v) AsyncStream"

text \<open>One round of the second loop.\<close>

definition takeLast_emit :: "(('s, 'v) takeLast_frame, 'v) pull" where
  "takeLast_emit f =
     (case takeLast_rest f of
        [] \<Rightarrow> Some (Inr IterDone, f\<lparr>takeLast_pc := TakeLastCompleted\<rparr>)
      | item # rest \<Rightarrow>
          Some (Inr (IterValue item), f\<lparr>takeLast_pc := TakeLastYield, takeLast_rest := rest\<rparr>))"

text \<open>The \<^verbatim>\<open>for await\<close> loop, followed by the first round of the second loop.\<close>

partial_function (option) takeLast_loop ::
  "real \<Rightarrow> ('s, 'v) takeLast_frame
     \<Rightarrow> ((error + 'v iter_result) \<times> ('s, 'v) takeLast_frame) option" where
  "takeLast_loop n f =
     Option.bind (AsyncStream_next (takeLast_self f)) (\<lambda>(r, self').
       case r of
         Inl e \<Rightarrow> Some (Inl e, f\<lparr>takeLast_pc := TakeLastCompleted, takeLast_self := self'\<rparr>)
       | Inr IterDone \<Rightarrow>
           takeLast_emit (f\<lparr>takeLast_rest := takeLast_results f, takeLast_self := self'\<rparr>)
       | Inr (IterValue item) \<Rightarrow>
           (let results = takeLast_results f @ [item];
                results = (if real (length results) > n then tl results else results)
            in takeLast_loop n (f\<lparr>takeLast_results := results, takeLast_self := self'\<rparr>)))"

declare takeLast_loop.simps [code]

definition takeLast_next :: "real \<Rightarrow> (('s, 'v) takeLast_frame, 'v) pull" where
  "takeLast_next n f =
     (case takeLast_pc f of
        TakeLastStart \<Rightarrow> takeLast_loop n (f\<lparr>takeLast_results := []\<rparr>)
      | TakeLastYield \<Rightarrow> takeLast_emit f
      | TakeLastCompleted \<Rightarrow> Some (Inr IterDone, f))"

definition takeLast_return :: "(('s, 'v) takeLast_frame, 'v) pull" where
  "takeLast_return f = Some (Inr IterDone, f\<lparr>takeLast_pc := TakeLastCompleted\<rparr>)"

definition takeLast_stream ::
  "real \<Rightarrow> ('s, 'v) takeLast_frame \<Rightarrow> (('s, 'v) takeLast_frame, 'v) AsyncStream" where
  "takeLast_stream n f =
     \<lparr>iter_next = takeLast_next n, iter_return = Some takeLast_return, iter_state = f\<rparr>"

definition takeLast ::
  "real \<Rightarrow> ('s, 'v) AsyncStream \<Rightarrow> error + (('s, 'v) takeLast_frame, 'v) AsyncStream" where
  "takeLast n self =
     (if n \<le> 0 then Inl (RangeError ''n must be a positive integer.'')
      else Inr (takeLast_stream n
                  \<lparr>takeLast_pc = TakeLastStart, takeLast_results = [], takeLast_rest = [],
                   takeLast_self = self\<rparr>))"

section \<open>Chained calls\<close>

text \<open>
  A combinator either throws while the chain is being built or returns a stream.
  \<open>chain\<close> passes the stream on to the next call of the chain; \<open>then_collect\<close> ends the
  chain with \<^verbatim>\<open>.collect()\<close> and keeps the result only.
\<close>

definition chain :: "error + 'x \<Rightarrow> ('x \<Rightarrow> error + 'y) \<Rightarrow> error + 'y" where
  "chain built stage = (case built of Inl e \<Rightarrow> Inl e | Inr this \<Rightarrow> stage this)"

definition then_collect :: "error + ('s, 'v) AsyncStream \<Rightarrow> (error + 'v list) option" where
  "then_collect built =
     (case built of Inl e \<Rightarrow> Some (Inl e) | Inr this \<Rightarrow> map_option fst (collect this))"

text \<open>
  The same for \<^verbatim>\<open>take\<close>, whose result is consumed whichever object it is:
  \<^verbatim>\<open>await stream.take(n).collect()\<close>.
\<close>

definition then_collect_taken :: "error + ('s, 'v) taken \<Rightarrow> (error + 'v list) option" where
  "then_collect_taken built =
     (case built of
        Inl e \<Rightarrow> Some (Inl e)
      | Inr (Self this) \<Rightarrow> map_option fst (collect this)
      | Inr (Taking this) \<Rightarrow> map_option fst (collect this))"


section \<open>Notions used to state and prove the properties\<close>

text \<open>
  \<open>yields this xs mid\<close>: pulling \<open>length xs\<close> times from \<open>this\<close> gives the items \<open>xs\<close>, in
  order, and leaves the stream as \<open>mid\<close>. \<open>delivers this xs fin\<close>: moreover the pull after
  them reports completion and leaves the stream as \<open>fin\<close>.
\<close>

fun yields :: "('s, 'v) AsyncStream \<Rightarrow> 'v list \<Rightarrow> ('s, 'v) AsyncStream \<Rightarrow> bool" where
  "yields this [] mid \<longleftrightarrow> mid = this"
| "yields this (x # xs) mid \<longleftrightarrow>
     (\<exists>this'. AsyncStream_next this = Some (Inr (IterValue x), this') \<and> yields this' xs mid)"

definition delivers :: "('s, 'v) AsyncStream \<Rightarrow> 'v list \<Rightarrow> ('s, 'v) AsyncStream \<Rightarrow> bool" where
  "delivers this xs fin \<longleftrightarrow>
     (\<exists>mid. yields this xs mid \<and> AsyncStream_next mid = Some (Inr IterDone, fin))"


text \<open>
  \<open>chunks k xs\<close> cuts \<open>xs\<close> into consecutive groups of \<open>k\<close> items, the last one shorter when
  \<open>k\<close> does not divide the length; \<open>full_chunks k xs\<close> keeps the groups of \<open>k\<close> items only.
\<close>

function chunks :: "nat \<Rightarrow> 'a list \<Rightarrow> 'a list list" where
  "chunks k xs = (if k = 0 \<or> xs = [] then [] else take k xs # chunks k (drop k xs))"
  by pat_completeness auto
termination
  by (relation "measure (\<lambda>(k, xs). length xs)") auto

function full_chunks :: "nat \<Rightarrow> 'a list \<Rightarrow> 'a list list" where
  "full_chunks k xs =
     (if k = 0 \<or> length xs < k then [] else take k xs # full_chunks k (drop k xs))"
  by pat_completeness auto
termination
  by (relation "measure (\<lambda>(k, xs). length xs)") auto

text \<open>\<open>leftover k xs\<close> is what remains of \<open>xs\<close> after its groups of \<open>k\<close> items.\<close>

function leftover :: "nat \<Rightarrow> 'a list \<Rightarrow> 'a list" where
  "leftover k xs = (if k = 0 \<or> length xs < k then xs else leftover k (drop k xs))"
  by pat_completeness auto
termination
  by (relation "measure (\<lambda>(k, xs). length xs)") auto

section \<open>Streams over finite sources\<close>

declare chunks.simps [simp del] full_chunks.simps [simp del] leftover.simps [simp del]

lemma delivers_Nil: "delivers this [] fin \<longleftrightarrow> AsyncStream_next this = Some (Inr IterDone, fin)"
  by (simp add: delivers_def)

lemma delivers_Cons:
  "delivers this (x # xs) fin \<longleftrightarrow>
     (\<exists>this'. AsyncStream_next this = Some (Inr (IterValue x), this') \<and> delivers this' xs fin)"
  by (auto simp: delivers_def)

lemma yields_append:
  "yields this (xs @ ys) fin \<longleftrightarrow> (\<exists>mid. yields this xs mid \<and> yields mid ys fin)"
  by (induction xs arbitrary: this) auto

lemma delivers_append:
  "delivers this (xs @ ys) fin \<longleftrightarrow> (\<exists>mid. yields this xs mid \<and> delivers mid ys fin)"
  by (auto simp: delivers_def yields_append)

lemma collect_loop_delivers:
  "delivers this xs fin \<Longrightarrow> collect_loop acc this = Some (Inr (acc @ xs), fin)"
proof (induction xs arbitrary: this acc)
  case Nil
  then show ?case by (subst collect_loop.simps) (simp add: delivers_Nil)
next
  case (Cons x xs)
  then obtain this' where n: "AsyncStream_next this = Some (Inr (IterValue x), this')"
    and d: "delivers this' xs fin" by (auto simp: delivers_Cons)
  show ?case by (subst collect_loop.simps) (simp add: n Cons.IH[OF d])
qed

lemma collect_delivers: "delivers this xs fin \<Longrightarrow> collect this = Some (Inr xs, fin)"
  by (simp add: collect_def collect_loop_delivers)

lemma generator_next_Nil:
  "AsyncStream_next (generator_stream \<lparr>pending = [], pulls = p\<rparr>) =
     Some (Inr IterDone, generator_stream \<lparr>pending = [], pulls = Suc p\<rparr>)"
  by (simp add: AsyncStream_next_def generator_stream_def getGenerator_next_def)

lemma generator_next_Cons:
  "AsyncStream_next (generator_stream \<lparr>pending = x # xs, pulls = p\<rparr>) =
     Some (Inr (IterValue x), generator_stream \<lparr>pending = xs, pulls = Suc p\<rparr>)"
  by (simp add: AsyncStream_next_def generator_stream_def getGenerator_next_def)

lemma yields_generator:
  "yields (generator_stream \<lparr>pending = xs @ ys, pulls = p\<rparr>) xs
          (generator_stream \<lparr>pending = ys, pulls = p + length xs\<rparr>)"
proof (induction xs arbitrary: p)
  case Nil
  then show ?case by simp
next
  case (Cons x xs)
  show ?case using Cons.IH[of "Suc p"] by (simp add: generator_next_Cons)
qed

lemma delivers_generator:
  "delivers (generator_stream \<lparr>pending = xs, pulls = p\<rparr>) xs
            (generator_stream \<lparr>pending = [], pulls = Suc (p + length xs)\<rparr>)"
  using yields_generator[of xs "[]" p] by (auto simp: delivers_def generator_next_Nil)

subsection \<open>\<^verbatim>\<open>pack\<close>\<close>

lemma pack_stream_next:
  "AsyncStream_next (pack_stream r f) = map_option (\<lambda>(res, f'). (res, pack_stream r f')) (pack_next r f)"
  by (simp add: AsyncStream_next_def pack_stream_def)

lemma pack_loop_rest:
  assumes "delivers up xs fin"
    and "\<forall>j. length buf < j \<and> j \<le> length buf + length xs \<longrightarrow> real j \<noteq> r"
  shows "pack_loop r \<lparr>pack_pc = pc, pack_buffer = buf, pack_self = up\<rparr> =
           (if buf @ xs = []
            then Some (Inr IterDone, \<lparr>pack_pc = PackCompleted, pack_buffer = buf, pack_self = fin\<rparr>)
            else Some (Inr (IterValue (Array (buf @ xs))),
                       \<lparr>pack_pc = PackYieldRest, pack_buffer = buf @ xs, pack_self = fin\<rparr>))"
  using assms
proof (induction xs arbitrary: buf up)
  case Nil
  then show ?case by (subst pack_loop.simps) (simp add: delivers_Nil)
next
  case (Cons x xs)
  from Cons.prems(1) obtain up' where n: "AsyncStream_next up = Some (Inr (IterValue x), up')"
    and d: "delivers up' xs fin" by (auto simp: delivers_Cons)
  have ne: "real (Suc (length buf)) \<noteq> r" using Cons.prems(2) by auto
  have "\<forall>j. length (buf @ [x]) < j \<and> j \<le> length (buf @ [x]) + length xs \<longrightarrow> real j \<noteq> r"
    using Cons.prems(2) by auto
  from Cons.IH[OF d this] ne show ?case
    by (subst pack_loop.simps) (simp add: n Let_def)
qed

lemma pack_loop_fill:
  assumes "yields up xs mid" and "length buf + length xs = k" and "xs \<noteq> []"
  shows "pack_loop (real k) \<lparr>pack_pc = pc, pack_buffer = buf, pack_self = up\<rparr> =
           Some (Inr (IterValue (Array (buf @ xs))),
                 \<lparr>pack_pc = PackYieldFull, pack_buffer = buf @ xs, pack_self = mid\<rparr>)"
  using assms
proof (induction xs arbitrary: buf up)
  case Nil
  then show ?case by simp
next
  case (Cons x xs)
  from Cons.prems(1) obtain up' where n: "AsyncStream_next up = Some (Inr (IterValue x), up')"
    and y: "yields up' xs mid" by auto
  show ?case
  proof (cases "xs = []")
    case True
    with Cons.prems y show ?thesis by (subst pack_loop.simps) (auto simp: n Let_def)
  next
    case False
    have "length (buf @ [x]) + length xs = k" using Cons.prems(2) by simp
    from Cons.IH[OF y this False] False Cons.prems(2) show ?thesis
      by (subst pack_loop.simps) (auto simp: n Let_def)
  qed
qed


lemma pack_next_entry:
  "pc = PackStart \<or> pc = PackYieldFull \<Longrightarrow>
   pack_next r \<lparr>pack_pc = pc, pack_buffer = buf0, pack_self = up\<rparr> =
     pack_loop r \<lparr>pack_pc = pc, pack_buffer = [], pack_self = up\<rparr>"
  by (auto simp: pack_next_def)

lemma pack_next_rest:
  "pack_next r \<lparr>pack_pc = PackYieldRest, pack_buffer = buf, pack_self = up\<rparr> =
     Some (Inr IterDone, \<lparr>pack_pc = PackCompleted, pack_buffer = buf, pack_self = up\<rparr>)"
  by (simp add: pack_next_def)

lemma pack_delivers:
  assumes "0 < k" and "delivers up xs fin" and "pc = PackStart \<or> pc = PackYieldFull"
  shows "\<exists>f'. delivers (pack_stream (real k) \<lparr>pack_pc = pc, pack_buffer = buf0, pack_self = up\<rparr>)
                  (map Array (chunks k xs)) (pack_stream (real k) f') \<and> pack_self f' = fin"
  using assms
proof (induction k xs arbitrary: up pc buf0 rule: chunks.induct)
  case (1 k xs)
  note entry = pack_next_entry[OF "1.prems"(3)]
  show ?case
  proof (cases "xs = []")
    case True
    have "\<forall>j. length [] < j \<and> j \<le> length [] + length ([]::'b jsval list) \<longrightarrow> real j \<noteq> real k"
      by auto
    from pack_loop_rest[OF "1.prems"(2)[unfolded True] this, of pc]
    have "pack_loop (real k) \<lparr>pack_pc = pc, pack_buffer = [], pack_self = up\<rparr> =
            Some (Inr IterDone, \<lparr>pack_pc = PackCompleted, pack_buffer = [], pack_self = fin\<rparr>)"
      by simp
    then show ?thesis
      by (auto simp: True chunks.simps delivers_Nil pack_stream_next entry)
  next
    case ne: False
    show ?thesis
    proof (cases "length xs < k")
      case True
      have c: "chunks k xs = [xs]" using True ne by (simp add: chunks.simps)
      have "\<forall>j. length [] < j \<and> j \<le> length [] + length xs \<longrightarrow> real j \<noteq> real k"
        using True by auto
      from pack_loop_rest[OF "1.prems"(2) this, of pc] ne
      have "pack_loop (real k) \<lparr>pack_pc = pc, pack_buffer = [], pack_self = up\<rparr> =
              Some (Inr (IterValue (Array xs)),
                    \<lparr>pack_pc = PackYieldRest, pack_buffer = xs, pack_self = fin\<rparr>)"
        by simp
      then show ?thesis
        by (auto simp: c delivers_Cons delivers_Nil pack_stream_next entry pack_next_rest)
    next
      case False
      have c: "chunks k xs = take k xs # chunks k (drop k xs)"
        using ne "1.prems"(1) by (subst chunks.simps) simp
      from "1.prems"(2) have "delivers up (take k xs @ drop k xs) fin" by simp
      then obtain mid where y: "yields up (take k xs) mid" and d: "delivers mid (drop k xs) fin"
        unfolding delivers_append by blast
      have l: "length [] + length (take k xs) = k" using False by simp
      have tne: "take k xs \<noteq> []" using ne "1.prems"(1) by auto
      have first: "pack_loop (real k) \<lparr>pack_pc = pc, pack_buffer = [], pack_self = up\<rparr> =
              Some (Inr (IterValue (Array (take k xs))),
                    \<lparr>pack_pc = PackYieldFull, pack_buffer = take k xs, pack_self = mid\<rparr>)"
        using pack_loop_fill[OF y l tne, of pc] by simp
      have "k \<noteq> 0 \<and> xs \<noteq> []" using ne "1.prems"(1) by simp
      then have "\<not> (k = 0 \<or> xs = [])" by simp
      from "1.IH"[OF this "1.prems"(1) d, of PackYieldFull "take k xs"]
      obtain f' where "delivers (pack_stream (real k)
            \<lparr>pack_pc = PackYieldFull, pack_buffer = take k xs, pack_self = mid\<rparr>)
            (map Array (chunks k (drop k xs))) (pack_stream (real k) f')" and "pack_self f' = fin"
        by auto
      then show ?thesis
        by (auto simp: c delivers_Cons pack_stream_next entry first)
    qed
  qed
qed

lemma concat_chunks: "0 < k \<Longrightarrow> concat (chunks k xs) = xs"
  by (induction k xs rule: chunks.induct) (subst chunks.simps, simp)

lemma length_chunks: "0 < k \<Longrightarrow> length (chunks k xs) = (length xs + k - 1) div k"
proof (induction k xs rule: chunks.induct)
  case (1 k xs)
  show ?case
  proof (cases "xs = []")
    case True
    then show ?thesis using "1.prems" by (simp add: chunks.simps)
  next
    case False
    then have ih: "length (chunks k (drop k xs)) = (length (drop k xs) + k - 1) div k"
      using 1 by simp
    show ?thesis
    proof (cases "length xs \<le> k")
      case True
      define m where "m = length xs - 1"
      have "length xs + k - 1 = k + m" "m < k" using True False by (cases xs; simp add: m_def)+
      then have "(length xs + k - 1) div k = 1" by simp
      then show ?thesis using ih True False "1.prems" by (subst chunks.simps) simp
    next
      case f: False
      then have "length xs + k - 1 = (length xs - k + k - 1) + k" by simp
      then have "(length xs + k - 1) div k = Suc ((length xs - k + k - 1) div k)"
        using "1.prems" by (metis div_add_self2 less_numeral_extra(3) Suc_eq_plus1)
      then show ?thesis using ih False "1.prems" by (subst chunks.simps) simp
    qed
  qed
qed

subsection \<open>\<^verbatim>\<open>flat\<close>\<close>

lemma delivers_cong_next:
  "AsyncStream_next a = AsyncStream_next b \<Longrightarrow> delivers a xs fin = delivers b xs fin"
  by (cases xs) (simp_all add: delivers_Nil delivers_Cons)

lemma flat_stream_next:
  "AsyncStream_next (flat_stream f) = map_option (\<lambda>(res, f'). (res, flat_stream f')) (flat_next f)"
  by (simp add: AsyncStream_next_def flat_stream_def)

lemma flat_next_entry:
  "pc = FlatStart \<or> (pc = FlatYield \<and> cur = []) \<Longrightarrow>
   flat_next \<lparr>flat_pc = pc, flat_page = cur, flat_self = up\<rparr> =
     flat_loop \<lparr>flat_pc = pc, flat_page = cur, flat_self = up\<rparr>"
  by (auto simp: flat_next_def)

lemma flat_next_item:
  "flat_next \<lparr>flat_pc = FlatYield, flat_page = c # cs, flat_self = up\<rparr> =
     Some (Inr (IterValue c), \<lparr>flat_pc = FlatYield, flat_page = cs, flat_self = up\<rparr>)"
  by (simp add: flat_next_def)

lemma flat_yield_delivers:
  assumes entry: "\<exists>f'. delivers (flat_stream \<lparr>flat_pc = FlatYield, flat_page = [], flat_self = up\<rparr>)
                          ys (flat_stream f') \<and> flat_self f' = fin"
  shows "\<exists>f'. delivers (flat_stream \<lparr>flat_pc = FlatYield, flat_page = cur, flat_self = up\<rparr>)
                  (cur @ ys) (flat_stream f') \<and> flat_self f' = fin"
proof (induction cur)
  case Nil
  from entry show ?case by simp
next
  case (Cons c cs)
  then show ?case by (auto simp: delivers_Cons flat_stream_next flat_next_item)
qed

lemma flat_entry_delivers:
  assumes "delivers up (map Array pages) fin" and "pc = FlatStart \<or> (pc = FlatYield \<and> cur = [])"
  shows "\<exists>f'. delivers (flat_stream \<lparr>flat_pc = pc, flat_page = cur, flat_self = up\<rparr>)
                  (concat pages) (flat_stream f') \<and> flat_self f' = fin"
  using assms
proof (induction pages arbitrary: up pc cur)
  case Nil
  then have "flat_loop \<lparr>flat_pc = pc, flat_page = cur, flat_self = up\<rparr> =
      Some (Inr IterDone, \<lparr>flat_pc = FlatCompleted, flat_page = cur, flat_self = fin\<rparr>)"
    by (subst flat_loop.simps) (simp add: delivers_Nil)
  then show ?case
    by (auto simp: delivers_Nil flat_stream_next flat_next_entry[OF Nil.prems(2)])
next
  case (Cons p ps)
  from Cons.prems(1) obtain up' where n: "AsyncStream_next up = Some (Inr (IterValue (Array p)), up')"
    and d: "delivers up' (map Array ps) fin" by (auto simp: delivers_Cons)
  show ?case
  proof (cases p)
    case Nil
    have "flat_loop \<lparr>flat_pc = pc, flat_page = cur, flat_self = up\<rparr> =
          flat_loop \<lparr>flat_pc = pc, flat_page = [], flat_self = up'\<rparr>"
      by (subst flat_loop.simps) (simp add: n Nil)
    moreover have e: "pc = FlatStart \<or> (pc = FlatYield \<and> ([]::'b jsval list) = [])"
      using Cons.prems(2) by auto
    ultimately have "AsyncStream_next (flat_stream \<lparr>flat_pc = pc, flat_page = cur, flat_self = up\<rparr>) =
       AsyncStream_next (flat_stream \<lparr>flat_pc = pc, flat_page = [], flat_self = up'\<rparr>)"
      by (simp add: flat_stream_next flat_next_entry[OF Cons.prems(2)] flat_next_entry[OF e])
    from delivers_cong_next[OF this] Cons.IH[OF d e] show ?thesis by (simp add: Nil)
  next
    case (Cons i is')
    have first: "flat_loop \<lparr>flat_pc = pc, flat_page = cur, flat_self = up\<rparr> =
          Some (Inr (IterValue i), \<lparr>flat_pc = FlatYield, flat_page = is', flat_self = up'\<rparr>)"
      by (subst flat_loop.simps) (simp add: n Cons)
    have "\<exists>f'. delivers (flat_stream \<lparr>flat_pc = FlatYield, flat_page = [], flat_self = up'\<rparr>)
                  (concat ps) (flat_stream f') \<and> flat_self f' = fin"
      using Cons.IH[OF d, of FlatYield "[]"] by simp
    from flat_yield_delivers[OF this, of is'] show ?thesis
      by (auto simp: Cons delivers_Cons flat_stream_next flat_next_entry[OF Cons.prems(2)] first)
  qed
qed

lemma flat_delivers:
  assumes "delivers up (map Array pages) fin"
  shows "\<exists>fl. delivers (flat up) (concat pages) fl \<and> flat_self (iter_state fl) = fin"
proof -
  from flat_entry_delivers[OF assms, of FlatStart "[]"]
  obtain f' where "delivers (flat up) (concat pages) (flat_stream f')" "flat_self f' = fin"
    by (auto simp: flat_def)
  then show ?thesis by (auto simp: flat_stream_def intro!: exI[of _ "flat_stream f'"])
qed

subsection \<open>The shape of the groups\<close>

lemma chunks_Nil: "chunks k [] = []"
  by (simp add: chunks.simps)

lemma chunks_eq_Nil: "chunks k xs = [] \<longleftrightarrow> k = 0 \<or> xs = []"
  by (subst chunks.simps) simp

lemma chunks_step: "0 < k \<Longrightarrow> xs \<noteq> [] \<Longrightarrow> chunks k xs = take k xs # chunks k (drop k xs)"
  by (subst chunks.simps) simp

lemma nth_chunks_length:
  "0 < k \<Longrightarrow> Suc i < length (chunks k xs) \<Longrightarrow> length (chunks k xs ! i) = k"
proof (induction k xs arbitrary: i rule: chunks.induct)
  case (1 k xs)
  from "1.prems" have ne: "xs \<noteq> []" by (auto simp: chunks_Nil)
  note st = chunks_step[OF "1.prems"(1) ne]
  from "1.prems"(2) have more: "chunks k (drop k xs) \<noteq> []" by (auto simp: st)
  show ?case
  proof (cases i)
    case 0
    from more have "drop k xs \<noteq> []" by (simp add: chunks_eq_Nil)
    then show ?thesis by (simp add: 0 st)
  next
    case (Suc j)
    from "1.prems"(2) have "Suc j < length (chunks k (drop k xs))" by (simp add: st Suc)
    with "1.IH"[of j] ne "1.prems"(1) show ?thesis by (simp add: st Suc)
  qed
qed

lemma last_chunks_length:
  "0 < k \<Longrightarrow> xs \<noteq> [] \<Longrightarrow>
   length (last (chunks k xs)) = (if length xs mod k = 0 then k else length xs mod k)"
proof (induction k xs rule: chunks.induct)
  case (1 k xs)
  note st = chunks_step[OF "1.prems"]
  show ?case
  proof (cases "drop k xs = []")
    case True
    then have "chunks k xs = [xs]" by (simp add: st chunks_Nil)
    moreover from True have "length xs \<le> k" by simp
    ultimately show ?thesis using "1.prems" by (cases "length xs = k") auto
  next
    case False
    then have "length xs mod k = length (drop k xs) mod k"
      by (simp add: le_mod_geq)
    with "1.IH" "1.prems" False show ?thesis by (simp add: st chunks_eq_Nil)
  qed
qed

lemma ceiling_div_nat:
  assumes "0 < k"
  shows "\<lceil>real L / real k\<rceil> = int ((L + k - 1) div k)"
proof -
  define z where "z = (L + k - 1) div k"
  have m: "(L + k - 1) mod k < k" using assms by simp
  have eq: "z * k + (L + k - 1) mod k = L + k - 1" by (simp add: z_def)
  have 1: "L \<le> z * k" using eq m by arith
  have 2: "z * k < L + k" using eq assms by arith
  have "real L \<le> real z * real k" using 1 by (metis of_nat_le_iff of_nat_mult)
  then have a: "real L / real k \<le> real z" using assms by (simp add: pos_divide_le_eq)
  have "real z * real k < real L + real k" using 2 by (metis of_nat_less_iff of_nat_mult of_nat_add)
  then have "(real z - 1) * real k < real L" by (simp add: algebra_simps)
  then have b: "real z - 1 < real L / real k" using assms by (simp add: pos_less_divide_eq)
  show ?thesis unfolding z_def[symmetric] by (rule ceiling_unique) (use a b in simp_all)
qed

lemma generator_delivers_fresh:
  "delivers (getGenerator S) S (generator_stream \<lparr>pending = [], pulls = Suc (length S)\<rparr>)"
  using delivers_generator[of S 0] by (simp add: getGenerator_def)


subsection \<open>\<^verbatim>\<open>take\<close>\<close>

lemma take_stream_next:
  "AsyncStream_next (take_stream r f) = map_option (\<lambda>(res, f'). (res, take_stream r f')) (take_next r f)"
  by (simp add: AsyncStream_next_def take_stream_def)

lemma take_next_entry:
  "pc = TakeStart \<and> c = 0 \<or> pc = TakeYield \<and> c = Suc cnt \<Longrightarrow>
   take_next r \<lparr>take_pc = pc, take_count = cnt, take_self = up\<rparr> =
     take_round r \<lparr>take_pc = pc, take_count = c, take_self = up\<rparr>"
  by (auto simp: take_next_def)

lemma take_collect:
  assumes "pc = TakeStart \<and> c = 0 \<or> pc = TakeYield \<and> c = Suc cnt" and "c \<le> n"
  shows "collect_loop acc (take_stream (real n)
            \<lparr>take_pc = pc, take_count = cnt,
             take_self = generator_stream \<lparr>pending = xs, pulls = p\<rparr>\<rparr>) =
         Some (Inr (acc @ take (n - c) xs),
               take_stream (real n)
                 \<lparr>take_pc = TakeCompleted, take_count = c + min (n - c) (length xs),
                  take_self = generator_stream
                    \<lparr>pending = drop (n - c) xs, pulls = p + min (n - c) (Suc (length xs))\<rparr>\<rparr>)"
  using assms
proof (induction xs arbitrary: pc c cnt acc p)
  case Nil
  show ?case
  proof (cases "c = n")
    case True
    then show ?thesis
      by (subst collect_loop.simps)
         (simp add: take_stream_next take_next_entry[OF Nil.prems(1)] take_round_def)
  next
    case False
    with Nil.prems(2) have "c < n" by simp
    then show ?thesis
      by (subst collect_loop.simps)
         (simp add: take_stream_next take_next_entry[OF Nil.prems(1)] take_round_def
            generator_next_Nil)
  qed
next
  case (Cons x xs)
  show ?case
  proof (cases "c = n")
    case True
    then show ?thesis
      by (subst collect_loop.simps)
         (simp add: take_stream_next take_next_entry[OF Cons.prems(1)] take_round_def)
  next
    case False
    with Cons.prems(2) have lt: "c < n" by simp
    then have le: "Suc c \<le> n" by simp
    have e: "TakeYield = TakeStart \<and> Suc c = 0 \<or> TakeYield = TakeYield \<and> Suc c = Suc c" by simp
    have sd: "n - c = Suc (n - Suc c)" using lt by simp
    have t: "take (n - c) (x # xs) = x # take (n - Suc c) xs"
      by (subst sd) simp
    have d: "drop (n - c) (x # xs) = drop (n - Suc c) xs"
      by (subst sd) simp
    have m1: "c + min (n - c) (Suc (length xs)) = Suc (c + min (n - Suc c) (length xs))"
      using lt by auto
    have m2: "p + min (n - c) (Suc (Suc (length xs))) = Suc (p + min (n - Suc c) (Suc (length xs)))"
      using lt by auto
    show ?thesis
      by (subst collect_loop.simps)
         (simp add: take_stream_next take_next_entry[OF Cons.prems(1)] take_round_def
            generator_next_Cons lt Cons.IH[OF e le] t d m1 m2 del: take_Suc_Cons drop_Suc_Cons min_Suc_Suc)
  qed
qed


subsection \<open>\<^verbatim>\<open>takeLast\<close>\<close>

lemma takeLast_stream_next:
  "AsyncStream_next (takeLast_stream r f) =
     map_option (\<lambda>(res, f'). (res, takeLast_stream r f')) (takeLast_next r f)"
  by (simp add: AsyncStream_next_def takeLast_stream_def)

lemma drop_window:
  assumes "d \<le> length ys - n"
  shows "drop (length (drop d ys) - n) (drop d ys) = drop (length ys - n) ys"
proof -
  have "length ys - d - n + d = length ys - n" using assms by arith
  then show ?thesis by (simp only: drop_drop length_drop)
qed

lemma takeLast_loop_generator:
  assumes "0 < n" and "length results \<le> n"
  shows "takeLast_loop (real n)
           \<lparr>takeLast_pc = pc, takeLast_results = results, takeLast_rest = rest,
            takeLast_self = generator_stream \<lparr>pending = xs, pulls = p\<rparr>\<rparr> =
         takeLast_emit
           \<lparr>takeLast_pc = pc,
            takeLast_results = drop (length (results @ xs) - n) (results @ xs),
            takeLast_rest = drop (length (results @ xs) - n) (results @ xs),
            takeLast_self = generator_stream \<lparr>pending = [], pulls = Suc (p + length xs)\<rparr>\<rparr>"
  using assms(2)
proof (induction xs arbitrary: results rest p)
  case Nil
  then show ?case
    by (subst takeLast_loop.simps) (simp add: generator_next_Nil)
next
  case (Cons x xs)
  define d where "d = length (results @ [x]) - n"
  define results' where "results' = drop d (results @ [x])"
  have d01: "d = 0 \<or> (d = 1 \<and> length results = n)" using Cons.prems by (auto simp: d_def)
  have upd: "(if real n < real (length (results @ [x])) then tl (results @ [x]) else results @ [x])
             = results'"
    using d01 Cons.prems assms(1) by (cases results) (auto simp: results'_def d_def)
  have len: "length results' \<le> n" using d01 Cons.prems by (auto simp: results'_def d_def)
  have app: "results' @ xs = drop d (results @ x # xs)"
    using d01 assms(1) by (cases results) (auto simp: results'_def)
  have dle: "d \<le> length (results @ x # xs) - n" by (simp add: d_def)
  have win: "drop (length (results' @ xs) - n) (results' @ xs) =
             drop (length (results @ x # xs) - n) (results @ x # xs)"
    unfolding app by (rule drop_window[OF dle])
  show ?case
    apply (subst takeLast_loop.simps)
    apply (simp only: generator_next_Cons takeLast_frame.simps Option.bind.simps prod.case
        sum.case iter_result.case Let_def upd)
    apply (simp only: takeLast_frame.update_convs takeLast_frame.simps Cons.IH[OF len] win)
    apply simp
    done
qed


lemma takeLast_emit_delivers:
  "delivers (takeLast_stream r \<lparr>takeLast_pc = TakeLastYield, takeLast_results = res,
                                 takeLast_rest = rest, takeLast_self = up\<rparr>)
            rest
            (takeLast_stream r \<lparr>takeLast_pc = TakeLastCompleted, takeLast_results = res,
                                 takeLast_rest = [], takeLast_self = up\<rparr>)"
  by (induction rest)
     (simp_all add: delivers_Nil delivers_Cons takeLast_stream_next takeLast_next_def
        takeLast_emit_def)

lemma takeLast_first_pull:
  fixes S :: "'a list" and n :: nat
  assumes "0 < n"
  defines "W \<equiv> drop (length S - n) S"
  shows "AsyncStream_next (takeLast_stream (real n)
            \<lparr>takeLast_pc = TakeLastStart, takeLast_results = [], takeLast_rest = [],
             takeLast_self = generator_stream \<lparr>pending = S, pulls = p\<rparr>\<rparr>) =
         Some (case W of [] \<Rightarrow> Inr IterDone | item # rest \<Rightarrow> Inr (IterValue item),
               takeLast_stream (real n)
                 \<lparr>takeLast_pc = (case W of [] \<Rightarrow> TakeLastCompleted | item # rest \<Rightarrow> TakeLastYield),
                  takeLast_results = W, takeLast_rest = tl W,
                  takeLast_self = generator_stream \<lparr>pending = [], pulls = Suc (p + length S)\<rparr>\<rparr>)"
  using takeLast_loop_generator[OF assms(1), of "[]" TakeLastStart "[]" S p]
  by (simp add: takeLast_stream_next takeLast_next_def takeLast_emit_def W_def split: list.split)


subsection \<open>\<^verbatim>\<open>filter\<close>\<close>

lemma filter_stream_next:
  "AsyncStream_next (filter_stream pr f) =
     map_option (\<lambda>(res, f'). (res, filter_stream pr f')) (filter_next pr f)"
  by (simp add: AsyncStream_next_def filter_stream_def)

lemma filter_next_yield:
  "filter_next pr \<lparr>filter_pc = FilterYield, filter_index = i, filter_env = env, filter_self = up\<rparr> =
     filter_loop pr \<lparr>filter_pc = FilterYield, filter_index = Suc i, filter_env = env, filter_self = up\<rparr>"
  by (simp add: filter_next_def)

lemma filter_next_start:
  "filter_next pr \<lparr>filter_pc = FilterStart, filter_index = i, filter_env = env, filter_self = up\<rparr> =
     filter_loop pr \<lparr>filter_pc = FilterStart, filter_index = 0, filter_env = env, filter_self = up\<rparr>"
  by (simp add: filter_next_def)

lemma zip_upt_Cons:
  "zip (x # xs) [i..<Suc (i + length xs)] = (x, i) # zip xs [Suc i..<Suc (i + length xs)]"
  by (simp add: upt_conv_Cons del: upt_Suc)

lemma filter_spy_delivers:
  assumes "delivers up xs fin"
    and "AsyncStream_next this =
           map_option (\<lambda>(res, f'). (res, filter_stream (spy p) f'))
             (filter_loop (spy p)
                \<lparr>filter_pc = pc, filter_index = i, filter_env = calls, filter_self = up\<rparr>)"
  shows "\<exists>f'. delivers this
                 (map fst (filter (\<lambda>(item, index). p item index) (zip xs [i..<i + length xs])))
                 (filter_stream (spy p) f')
             \<and> filter_env f' = calls @ zip xs [i..<i + length xs] \<and> filter_self f' = fin"
  using assms
proof (induction xs arbitrary: up this pc i calls)
  case Nil
  have "filter_loop (spy p)
          \<lparr>filter_pc = pc, filter_index = i, filter_env = calls, filter_self = up\<rparr> =
        Some (Inr IterDone,
          \<lparr>filter_pc = FilterCompleted, filter_index = i, filter_env = calls, filter_self = fin\<rparr>)"
    using Nil.prems(1) by (subst filter_loop.simps) (simp add: delivers_Nil)
  with Nil.prems(2) show ?case by (auto simp: delivers_Nil)
next
  case (Cons x xs)
  from Cons.prems(1) obtain up' where n: "AsyncStream_next up = Some (Inr (IterValue x), up')"
    and d: "delivers up' xs fin" by (auto simp: delivers_Cons)
  note z = zip_upt_Cons[of x xs i]
  show ?case
  proof (cases "p x i")
    case True
    let ?f = "\<lparr>filter_pc = FilterYield, filter_index = i, filter_env = calls @ [(x, i)],
               filter_self = up'\<rparr>"
    have "filter_loop (spy p)
            \<lparr>filter_pc = pc, filter_index = i, filter_env = calls, filter_self = up\<rparr> =
          Some (Inr (IterValue x), ?f)"
      by (subst filter_loop.simps) (simp add: n spy_def True)
    with Cons.prems(2) have first:
      "AsyncStream_next this = Some (Inr (IterValue x), filter_stream (spy p) ?f)" by simp
    have "AsyncStream_next (filter_stream (spy p) ?f) =
            map_option (\<lambda>(res, f'). (res, filter_stream (spy p) f'))
              (filter_loop (spy p)
                 \<lparr>filter_pc = FilterYield, filter_index = Suc i, filter_env = calls @ [(x, i)],
                  filter_self = up'\<rparr>)"
      by (simp add: filter_stream_next filter_next_yield)
    from Cons.IH[OF d this] obtain f' where
      "delivers (filter_stream (spy p) ?f)
         (map fst (filter (\<lambda>(item, index). p item index) (zip xs [Suc i..<Suc i + length xs])))
         (filter_stream (spy p) f')"
      "filter_env f' = (calls @ [(x, i)]) @ zip xs [Suc i..<Suc i + length xs]"
      "filter_self f' = fin" by blast
    with first True show ?thesis
      by (auto simp: delivers_Cons z simp del: upt_Suc)
  next
    case False
    have "filter_loop (spy p)
            \<lparr>filter_pc = pc, filter_index = i, filter_env = calls, filter_self = up\<rparr> =
          filter_loop (spy p)
            \<lparr>filter_pc = pc, filter_index = Suc i, filter_env = calls @ [(x, i)],
             filter_self = up'\<rparr>"
      by (subst filter_loop.simps) (simp add: n spy_def False)
    with Cons.prems(2) have "AsyncStream_next this =
            map_option (\<lambda>(res, f'). (res, filter_stream (spy p) f'))
              (filter_loop (spy p)
                 \<lparr>filter_pc = pc, filter_index = Suc i, filter_env = calls @ [(x, i)],
                  filter_self = up'\<rparr>)" by simp
    from Cons.IH[OF d this] obtain f' where
      "delivers this
         (map fst (filter (\<lambda>(item, index). p item index) (zip xs [Suc i..<Suc i + length xs])))
         (filter_stream (spy p) f')"
      "filter_env f' = (calls @ [(x, i)]) @ zip xs [Suc i..<Suc i + length xs]"
      "filter_self f' = fin" by blast
    with False show ?thesis
      by (auto simp: z simp del: upt_Suc)
  qed
qed


subsection \<open>\<^verbatim>\<open>skip\<close>\<close>

lemma skip_stream_next:
  "AsyncStream_next (skip_stream r f) = map_option (\<lambda>(res, f'). (res, skip_stream r f')) (skip_next r f)"
  by (simp add: AsyncStream_next_def skip_stream_def)

lemma skip_pass_delivers:
  assumes "delivers up ys fin"
    and "AsyncStream_next this =
           map_option (\<lambda>(res, f'). (res, skip_stream r f'))
             (skip_pass \<lparr>skip_pc = pc, skip_count = c, skip_self = up\<rparr>)"
  shows "\<exists>f'. delivers this ys (skip_stream r f') \<and> skip_self f' = fin"
  using assms
proof (induction ys arbitrary: up this pc)
  case Nil
  then show ?case by (auto simp: delivers_Nil skip_pass_def)
next
  case (Cons y ys)
  from Cons.prems(1) obtain up' where n: "AsyncStream_next up = Some (Inr (IterValue y), up')"
    and d: "delivers up' ys fin" by (auto simp: delivers_Cons)
  let ?f = "\<lparr>skip_pc = SkipYield, skip_count = c, skip_self = up'\<rparr>"
  from Cons.prems(2) have first: "AsyncStream_next this = Some (Inr (IterValue y), skip_stream r ?f)"
    by (simp add: skip_pass_def n)
  have "AsyncStream_next (skip_stream r ?f) =
          map_option (\<lambda>(res, f'). (res, skip_stream r f')) (skip_pass ?f)"
    by (simp add: skip_stream_next skip_next_def)
  from Cons.IH[OF d this] first show ?case by (auto simp: delivers_Cons)
qed

lemma skip_while_delivers:
  assumes "delivers up xs fin" and "c \<le> n"
  shows "(length xs < n - c \<longrightarrow>
            skip_while (real n) \<lparr>skip_pc = pc, skip_count = c, skip_self = up\<rparr> =
              Some (Inr IterDone,
                    \<lparr>skip_pc = SkipCompleted, skip_count = c + length xs, skip_self = fin\<rparr>))
       \<and> (n - c \<le> length xs \<longrightarrow>
            (\<exists>mid. skip_while (real n) \<lparr>skip_pc = pc, skip_count = c, skip_self = up\<rparr> =
                      skip_pass \<lparr>skip_pc = pc, skip_count = n, skip_self = mid\<rparr>
                  \<and> delivers mid (drop (n - c) xs) fin))"
  using assms
proof (induction xs arbitrary: up c)
  case Nil
  show ?case
  proof (cases "c = n")
    case True
    with Nil.prems show ?thesis by (subst skip_while.simps) auto
  next
    case False
    with Nil.prems have "c < n" by simp
    with Nil.prems show ?thesis
      by (subst skip_while.simps) (auto simp: delivers_Nil)
  qed
next
  case (Cons x xs)
  from Cons.prems(1) obtain up' where nx: "AsyncStream_next up = Some (Inr (IterValue x), up')"
    and d: "delivers up' xs fin" by (auto simp: delivers_Cons)
  show ?case
  proof (cases "c = n")
    case True
    with Cons.prems show ?thesis by (subst skip_while.simps) auto
  next
    case False
    with Cons.prems have lt: "c < n" by simp
    then have le: "Suc c \<le> n" by simp
    have sd: "n - c = Suc (n - Suc c)" using lt by simp
    have unf: "skip_while (real n) \<lparr>skip_pc = pc, skip_count = c, skip_self = up\<rparr> =
               skip_while (real n) \<lparr>skip_pc = pc, skip_count = Suc c, skip_self = up'\<rparr>"
      using lt by (subst skip_while.simps) (simp add: nx)
    from Cons.IH[OF d le] show ?thesis
      unfolding unf by (simp add: sd)
  qed
qed

lemma skip_delivers:
  assumes "delivers up xs fin"
  shows "\<exists>f'. delivers (skip_stream (real n)
                           \<lparr>skip_pc = SkipStart, skip_count = 0, skip_self = up\<rparr>)
                 (drop n xs) (skip_stream (real n) f') \<and> skip_self f' = fin"
proof (cases "n = 0")
  case True
  have "AsyncStream_next (skip_stream (real n)
           \<lparr>skip_pc = SkipStart, skip_count = 0, skip_self = up\<rparr>) =
        map_option (\<lambda>(res, f'). (res, skip_stream (real n) f'))
          (skip_pass \<lparr>skip_pc = SkipStart, skip_count = 0, skip_self = up\<rparr>)"
    using True by (simp add: skip_stream_next skip_next_def)
  from skip_pass_delivers[OF assms this] True show ?thesis by simp
next
  case False
  then have nx: "AsyncStream_next (skip_stream (real n)
           \<lparr>skip_pc = SkipStart, skip_count = 0, skip_self = up\<rparr>) =
        map_option (\<lambda>(res, f'). (res, skip_stream (real n) f'))
          (skip_while (real n) \<lparr>skip_pc = SkipStart, skip_count = 0, skip_self = up\<rparr>)"
    by (simp add: skip_stream_next skip_next_def)
  note w = skip_while_delivers[OF assms, of 0 n SkipStart]
  show ?thesis
  proof (cases "length xs < n")
    case True
    with w nx show ?thesis by (auto simp: delivers_Nil)
  next
    case False
    with w obtain mid where
      "skip_while (real n) \<lparr>skip_pc = SkipStart, skip_count = 0, skip_self = up\<rparr> =
         skip_pass \<lparr>skip_pc = SkipStart, skip_count = n, skip_self = mid\<rparr>"
      and d: "delivers mid (drop n xs) fin" by auto
    with nx have "AsyncStream_next (skip_stream (real n)
           \<lparr>skip_pc = SkipStart, skip_count = 0, skip_self = up\<rparr>) =
        map_option (\<lambda>(res, f'). (res, skip_stream (real n) f'))
          (skip_pass \<lparr>skip_pc = SkipStart, skip_count = n, skip_self = mid\<rparr>)" by simp
    from skip_pass_delivers[OF d this] show ?thesis .
  qed
qed


subsection \<open>Groups of a fixed size and what is left over\<close>













subsection \<open>Streams that fail: \<^verbatim>\<open>flat\<close>\<close>




subsection \<open>\<^verbatim>\<open>repack\<close>\<close>

lemma slice_index_of_nat [simp]: "slice_index (real k) = k"
  by (simp add: slice_index_def)












subsection \<open>The guards\<close>

text \<open>
  The arguments on which the calls throw: the guards compare with zero, and the call
  that throws returns nothing else.
\<close>

lemma guards_raise_range_error:
  "(packageSize \<le> 0 \<longrightarrow>
      pack packageSize this1 = Inl (RangeError ''packageSize must be a positive integer.''))
   \<and> (n < 0 \<longrightarrow>
      skip n this2 = Inl (RangeError ''n must be a non-negative integer.'')
      \<and> take_s n this3 = Inl (RangeError ''n must be a non-negative integer.''))
   \<and> (m \<le> 0 \<longrightarrow> takeLast m this4 = Inl (RangeError ''n must be a positive integer.''))"
  by (simp add: pack_def skip_def take_s_def takeLast_def)

section \<open>Properties of the combinators\<close>

text \<open>
  Claim C1. For every positive integer \<open>n\<close> and every finite source \<open>S\<close>,
  \<^verbatim>\<open>pack(n)\<close>, then \<^verbatim>\<open>flat()\<close>, then \<^verbatim>\<open>collect()\<close> resolves to \<open>S\<close> itself.
\<close>

theorem pack_flat_roundtrip:
  assumes "0 < n"
  shows "then_collect (chain (pack (real n) (getGenerator S)) (\<lambda>p. Inr (flat p))) = Some (Inr S)"
proof -
  let ?src = "getGenerator S"
  have d0: "delivers ?src S (generator_stream \<lparr>pending = [], pulls = Suc (length S)\<rparr>)"
    using delivers_generator[of S 0] by (simp add: getGenerator_def)
  from pack_delivers[OF assms d0, of PackStart "[]"]
  obtain f' where d1: "delivers (pack_stream (real n)
        \<lparr>pack_pc = PackStart, pack_buffer = [], pack_self = ?src\<rparr>)
        (map Array (chunks n S)) (pack_stream (real n) f')" by auto
  from flat_delivers[OF d1] obtain fl where
    "delivers (flat (pack_stream (real n) \<lparr>pack_pc = PackStart, pack_buffer = [], pack_self = ?src\<rparr>))
       (concat (chunks n S)) fl" by auto
  from collect_delivers[OF this] assms show ?thesis
    by (simp add: then_collect_def chain_def pack_def concat_chunks)
qed

theorem pack_flat_roundtrip_witness:
  "0 < (2::nat) \<and>
   then_collect (chain (pack (real 2) (getGenerator [Atom (1::nat), Atom 2, Atom 3]))
                   (\<lambda>p. Inr (flat p))) = Some (Inr [Atom 1, Atom 2, Atom 3])"
  using pack_flat_roundtrip[of 2 "[Atom (1::nat), Atom 2, Atom 3]"] by simp

text \<open>
  Claim C2. For a positive integer \<open>groupSize\<close> and a finite source \<open>S\<close> of length \<open>L\<close>,
  \<^verbatim>\<open>pack(groupSize)\<close> emits \<open>\<lceil>L / groupSize\<rceil>\<close> groups whose concatenation is \<open>S\<close>
  (arrival order); every group but the last has \<open>groupSize\<close> items; the last one has
  \<open>L mod groupSize\<close> items, or \<open>groupSize\<close> when that is zero; an empty source gives no
  group.
\<close>

theorem pack_group_shape:
  assumes "0 < groupSize"
  shows "\<exists>groups.
           then_collect (pack (real groupSize) (getGenerator S)) = Some (Inr (map Array groups))
         \<and> concat groups = S
         \<and> int (length groups) = \<lceil>real (length S) / real groupSize\<rceil>
         \<and> (\<forall>i. Suc i < length groups \<longrightarrow> length (groups ! i) = groupSize)
         \<and> (groups \<noteq> [] \<longrightarrow>
              length (last groups) =
                (if length S mod groupSize = 0 then groupSize else length S mod groupSize))
         \<and> (S = [] \<longrightarrow> groups = [])"
proof -
  from pack_delivers[OF assms generator_delivers_fresh, of PackStart "[]" S]
  obtain f' where "delivers (pack_stream (real groupSize)
        \<lparr>pack_pc = PackStart, pack_buffer = [], pack_self = getGenerator S\<rparr>)
        (map Array (chunks groupSize S)) (pack_stream (real groupSize) f')" by auto
  from collect_delivers[OF this] assms
  have "then_collect (pack (real groupSize) (getGenerator S)) =
          Some (Inr (map Array (chunks groupSize S)))"
    by (simp add: then_collect_def pack_def)
  moreover have "concat (chunks groupSize S) = S" by (rule concat_chunks[OF assms])
  moreover have "int (length (chunks groupSize S)) = \<lceil>real (length S) / real groupSize\<rceil>"
    by (simp add: ceiling_div_nat[OF assms] length_chunks[OF assms])
  moreover have "\<forall>i. Suc i < length (chunks groupSize S) \<longrightarrow>
                   length (chunks groupSize S ! i) = groupSize"
    using nth_chunks_length[OF assms] by blast
  moreover have "chunks groupSize S \<noteq> [] \<longrightarrow>
       length (last (chunks groupSize S)) =
         (if length S mod groupSize = 0 then groupSize else length S mod groupSize)"
    using last_chunks_length[OF assms, of S] by (cases "S = []") (simp_all add: chunks_Nil)
  moreover have "S = [] \<longrightarrow> chunks groupSize S = []" by (simp add: chunks_Nil)
  ultimately show ?thesis by blast
qed

theorem pack_group_shape_witness:
  "0 < (2::nat) \<and>
   (\<exists>groups.
      then_collect (pack (real 2) (getGenerator [Atom (1::nat), Atom 2, Atom 3])) =
        Some (Inr (map Array groups))
    \<and> concat groups = [Atom 1, Atom 2, Atom 3]
    \<and> int (length groups) = \<lceil>real (length [Atom (1::nat), Atom 2, Atom 3]) / real 2\<rceil>
    \<and> (\<forall>i. Suc i < length groups \<longrightarrow> length (groups ! i) = 2)
    \<and> (groups \<noteq> [] \<longrightarrow>
         length (last groups) =
           (if length [Atom (1::nat), Atom 2, Atom 3] mod 2 = 0 then 2
            else length [Atom (1::nat), Atom 2, Atom 3] mod 2))
    \<and> ([Atom (1::nat), Atom 2, Atom 3] = [] \<longrightarrow> groups = []))"
  using pack_group_shape[of 2 "[Atom (1::nat), Atom 2, Atom 3]"] by simp

text \<open>
  Claim C3, as stated for every non-negative \<open>n\<close>, fails at \<open>n = 0\<close>: \<^verbatim>\<open>take(0)\<close> is the
  stream itself, and consuming it yields every item of the source, not the first
  \<open>min 0 L = 0\<close> of them.
\<close>

theorem take_all_nonnegative_counterexample:
  "then_collect_taken (take_s (real 0) (getGenerator [7::nat, 8])) \<noteq>
     Some (Inr (take (min 0 (length [7::nat, 8])) [7, 8]))"
  using collect_delivers[OF generator_delivers_fresh, of "[7::nat, 8]"]
  by (simp add: then_collect_taken_def take_s_def)

text \<open>
  Claim C3, amended to positive \<open>n\<close>. For a positive integer \<open>n\<close> and a finite source \<open>S\<close>
  of length \<open>L\<close>, \<^verbatim>\<open>take(n)\<close> builds a new stream; \<^verbatim>\<open>collect()\<close> on it resolves to the first
  \<open>min n L\<close> items of \<open>S\<close>; the source is left holding the items from position \<open>n\<close> on,
  after \<open>min n (L + 1)\<close> pulls (so exactly \<open>n\<close> pulls when \<open>n\<close> items were emitted, none
  after the \<open>n\<close>-th item); the next pull on the source gives item \<open>n\<close>, or reports completion
  when \<open>n \<ge> L\<close>.
\<close>

theorem take_positive_prefix:
  assumes "0 < n"
  shows "\<exists>t fin.
           take_s (real n) (getGenerator S) = Inr (Taking t)
         \<and> collect t = Some (Inr (take (min n (length S)) S), fin)
         \<and> take_self (iter_state fin) =
             generator_stream \<lparr>pending = drop n S, pulls = min n (Suc (length S))\<rparr>
         \<and> AsyncStream_next (take_self (iter_state fin)) =
             Some (if n < length S then Inr (IterValue (S ! n)) else Inr IterDone,
                   generator_stream \<lparr>pending = drop (Suc n) S,
                                     pulls = Suc (min n (Suc (length S)))\<rparr>)"
proof -
  let ?t = "take_stream (real n)
              \<lparr>take_pc = TakeStart, take_count = 0, take_self = getGenerator S\<rparr>"
  let ?up = "generator_stream \<lparr>pending = drop n S, pulls = min n (Suc (length S))\<rparr>"
  let ?fin = "take_stream (real n)
                \<lparr>take_pc = TakeCompleted, take_count = min n (length S), take_self = ?up\<rparr>"
  have b: "take_s (real n) (getGenerator S) = Inr (Taking ?t)"
    using assms by (simp add: take_s_def)
  have "TakeStart = TakeStart \<and> (0::nat) = 0 \<or> TakeStart = TakeYield \<and> (0::nat) = Suc 0"
    by simp
  from take_collect[where pc = TakeStart and c = 0 and cnt = 0 and n = n and acc = "[]"
      and xs = S and p = 0, OF this]
  have c: "collect ?t = Some (Inr (take (min n (length S)) S), ?fin)"
    by (simp add: collect_def getGenerator_def min_def)
  have s: "take_self (iter_state ?fin) = ?up" by (simp add: take_stream_def)
  have n: "AsyncStream_next ?up =
             Some (if n < length S then Inr (IterValue (S ! n)) else Inr IterDone,
                   generator_stream \<lparr>pending = drop (Suc n) S,
                                     pulls = Suc (min n (Suc (length S)))\<rparr>)"
  proof (cases "n < length S")
    case True
    then have "drop n S = S ! n # drop (Suc n) S" by (simp add: Cons_nth_drop_Suc)
    with True show ?thesis by (simp add: generator_next_Cons)
  next
    case False
    then show ?thesis by (simp add: generator_next_Nil)
  qed
  from b c s n show ?thesis by (metis (no_types, lifting))
qed

theorem take_positive_prefix_witness:
  "0 < (2::nat) \<and>
   (\<exists>t fin.
      take_s (real 2) (getGenerator [5::nat, 6, 7]) = Inr (Taking t)
    \<and> collect t = Some (Inr [5, 6], fin)
    \<and> take_self (iter_state fin) = generator_stream \<lparr>pending = [7], pulls = 2\<rparr>
    \<and> AsyncStream_next (take_self (iter_state fin)) =
        Some (Inr (IterValue 7), generator_stream \<lparr>pending = [], pulls = 3\<rparr>))"
  using take_positive_prefix[of 2 "[5::nat, 6, 7]"]
  by (simp add: numeral_2_eq_2 numeral_3_eq_3)

text \<open>
  Claim C4. For a positive integer \<open>n\<close> and a generator source holding the items \<open>S\<close>
  (length \<open>L\<close>), the first pull on \<^verbatim>\<open>takeLast(n)\<close> resolves only when the source has been
  pulled to exhaustion (\<open>L + 1\<close> more pulls, nothing left pending) and gives the first of the
  last \<open>min n L\<close> items of \<open>S\<close> (or completion when there is none); \<^verbatim>\<open>collect()\<close> resolves to
  those last \<open>min n L\<close> items in their order; on a source that is already exhausted the
  result is empty.
\<close>

theorem takeLast_window:
  fixes S :: "'a list" and n p :: nat
  assumes "0 < n"
  shows "\<exists>t t'.
           takeLast (real n) (generator_stream \<lparr>pending = S, pulls = p\<rparr>) = Inr t
         \<and> AsyncStream_next t =
             Some (case drop (length S - n) S of
                     [] \<Rightarrow> Inr IterDone
                   | item # rest \<Rightarrow> Inr (IterValue item), t')
         \<and> iter_state (takeLast_self (iter_state t')) =
             \<lparr>pending = [], pulls = Suc (p + length S)\<rparr>
         \<and> then_collect (takeLast (real n) (generator_stream \<lparr>pending = S, pulls = p\<rparr>)) =
             Some (Inr (drop (length S - n) S))
         \<and> length (drop (length S - n) S) = min n (length S)
         \<and> then_collect (takeLast (real n)
                          (generator_stream \<lparr>pending = ([]::'a list), pulls = p\<rparr>)) =
             Some (Inr [])"
proof -
  let ?W = "drop (length S - n) S"
  let ?src = "generator_stream \<lparr>pending = S, pulls = p\<rparr>"
  let ?fin = "generator_stream \<lparr>pending = [], pulls = Suc (p + length S)\<rparr>"
  let ?t = "takeLast_stream (real n)
              \<lparr>takeLast_pc = TakeLastStart, takeLast_results = [], takeLast_rest = [],
               takeLast_self = ?src\<rparr>"
  let ?t' = "takeLast_stream (real n)
               \<lparr>takeLast_pc = (case ?W of [] \<Rightarrow> TakeLastCompleted | item # rest \<Rightarrow> TakeLastYield),
                takeLast_results = ?W, takeLast_rest = tl ?W, takeLast_self = ?fin\<rparr>"
  have b: "\<And>src. takeLast (real n) src =
             Inr (takeLast_stream (real n)
                    \<lparr>takeLast_pc = TakeLastStart, takeLast_results = [], takeLast_rest = [],
                     takeLast_self = src\<rparr>)"
    using assms by (simp add: takeLast_def)
  have n1: "AsyncStream_next ?t =
              Some (case ?W of [] \<Rightarrow> Inr IterDone | item # rest \<Rightarrow> Inr (IterValue item), ?t')"
    by (rule takeLast_first_pull[OF assms])
  have s: "iter_state (takeLast_self (iter_state ?t')) = \<lparr>pending = [], pulls = Suc (p + length S)\<rparr>"
    by (simp add: takeLast_stream_def generator_stream_def)
  have coll: "\<And>(S'::'a list) W'. W' = drop (length S' - n) S' \<Longrightarrow>
      then_collect (takeLast (real n) (generator_stream \<lparr>pending = S', pulls = p\<rparr>)) =
        Some (Inr W')"
  proof -
    fix S' :: "'a list" and W'
    assume W': "W' = drop (length S' - n) S'"
    have "\<exists>fin. delivers (takeLast_stream (real n)
              \<lparr>takeLast_pc = TakeLastStart, takeLast_results = [], takeLast_rest = [],
               takeLast_self = generator_stream \<lparr>pending = S', pulls = p\<rparr>\<rparr>) W' fin"
    proof (cases W')
      case Nil
      then show ?thesis
        using takeLast_first_pull[OF assms, of S' p] W' by (simp add: delivers_Nil)
    next
      case (Cons w ws)
      then show ?thesis
        using takeLast_first_pull[OF assms, of S' p] W'
          takeLast_emit_delivers[of "real n" W' ws]
        by (auto simp: delivers_Cons)
    qed
    then obtain fin where "delivers (takeLast_stream (real n)
              \<lparr>takeLast_pc = TakeLastStart, takeLast_results = [], takeLast_rest = [],
               takeLast_self = generator_stream \<lparr>pending = S', pulls = p\<rparr>\<rparr>) W' fin" ..
    from collect_delivers[OF this] show
      "then_collect (takeLast (real n) (generator_stream \<lparr>pending = S', pulls = p\<rparr>)) =
         Some (Inr W')"
      by (simp add: then_collect_def b)
  qed
  have c1: "then_collect (takeLast (real n) ?src) = Some (Inr (drop (length S - n) S))"
    by (rule coll) simp
  have c2: "then_collect (takeLast (real n)
                           (generator_stream \<lparr>pending = ([]::'a list), pulls = p\<rparr>)) =
              Some (Inr [])"
    by (rule coll) simp
  have l: "length (drop (length S - n) S) = min n (length S)" by auto
  show ?thesis
    apply (rule exI[of _ ?t])
    apply (rule exI[of _ ?t'])
    apply (intro conjI)
         apply (rule b)
        apply (rule n1)
       apply (rule s)
      apply (rule c1)
     apply (rule l)
    apply (rule c2)
    done
qed

theorem takeLast_window_witness:
  "0 < (2::nat) \<and>
   (\<exists>t t'.
      takeLast (real 2) (generator_stream \<lparr>pending = [5::nat, 6, 7], pulls = 0\<rparr>) = Inr t
    \<and> AsyncStream_next t = Some (Inr (IterValue 6), t')
    \<and> iter_state (takeLast_self (iter_state t')) = \<lparr>pending = [], pulls = 4\<rparr>
    \<and> then_collect (takeLast (real 2) (generator_stream \<lparr>pending = [5::nat, 6, 7], pulls = 0\<rparr>)) =
        Some (Inr [6, 7])
    \<and> then_collect (takeLast (real 2) (generator_stream \<lparr>pending = ([]::nat list), pulls = 0\<rparr>)) =
        Some (Inr []))"
  using takeLast_window[of 2 "[5::nat, 6, 7]" 0]
  by (simp add: numeral_2_eq_2 eval_nat_numeral)

text \<open>
  Claim C5 asks for a \<^verbatim>\<open>RangeError\<close> from \<^verbatim>\<open>pack\<close> on every size that is not a positive
  integer, and the message of the guard says the same (\<^verbatim>\<open>'packageSize must be a positive
  integer.'\<close>). The guard tests \<^verbatim>\<open>packageSize <= 0\<close> only. At the size \<open>5/2\<close> the call throws
  nothing and returns a stream, and that stream does no grouping: collected over the
  source \<open>[1, 2, 3, 4, 5]\<close> it gives the single group \<open>[1, 2, 3, 4, 5]\<close>.
\<close>

theorem pack_fraction_not_rejected:
  "pack (5/2) (getGenerator [Atom (1::nat), Atom 2, Atom 3, Atom 4, Atom 5]) =
     Inr (pack_stream (5/2)
            \<lparr>pack_pc = PackStart, pack_buffer = [],
             pack_self = getGenerator [Atom (1::nat), Atom 2, Atom 3, Atom 4, Atom 5]\<rparr>)
   \<and> then_collect (pack (5/2) (getGenerator [Atom (1::nat), Atom 2, Atom 3, Atom 4, Atom 5])) =
       Some (Inr [Array [Atom 1, Atom 2, Atom 3, Atom 4, Atom 5]])"
proof
  show "pack (5/2) (getGenerator [Atom (1::nat), Atom 2, Atom 3, Atom 4, Atom 5]) =
     Inr (pack_stream (5/2)
            \<lparr>pack_pc = PackStart, pack_buffer = [],
             pack_self = getGenerator [Atom (1::nat), Atom 2, Atom 3, Atom 4, Atom 5]\<rparr>)"
    by (simp add: pack_def)
  show "then_collect (pack (5/2) (getGenerator [Atom (1::nat), Atom 2, Atom 3, Atom 4, Atom 5])) =
       Some (Inr [Array [Atom 1, Atom 2, Atom 3, Atom 4, Atom 5]])"
    by code_simp
qed




text \<open>
  Claim C7. \<^verbatim>\<open>take(0)\<close> returns the stream it was called on, not a new stage; over a
  generator source the returned stream has the same pending items and the same number
  of pulls as before the call.
\<close>

theorem take_zero_returns_self:
  "take_s 0 this = Inr (Self this)
   \<and> (case take_s 0 (generator_stream g) of
        Inr (Self s) \<Rightarrow> pending (iter_state s) = pending g \<and> pulls (iter_state s) = pulls g
      | _ \<Rightarrow> False)"
  by (simp add: take_s_def generator_stream_def)

text \<open>
  Claim C8. For a finite source \<open>S\<close> and a predicate \<open>p\<close> (observed by a spy that records
  its calls), \<^verbatim>\<open>filter(p)\<close> calls the predicate exactly once for every item of \<open>S\<close>, in
  order, with the zero-based position of the item in \<open>S\<close> (rejected items count), and
  \<^verbatim>\<open>collect()\<close> resolves to the items for which the call was truthy, in source order.
\<close>

theorem filter_indexed_calls:
  "\<exists>fin. collect (filter_s (spy p) [] (getGenerator S)) =
            Some (Inr (map fst (filter (\<lambda>(item, index). p item index)
                                  (zip S [0..<length S]))), fin)
        \<and> filter_env (iter_state fin) = zip S [0..<length S]"
proof -
  let ?st = "filter_s (spy p) [] (getGenerator S)"
  have "AsyncStream_next ?st =
          map_option (\<lambda>(res, f'). (res, filter_stream (spy p) f'))
            (filter_loop (spy p)
               \<lparr>filter_pc = FilterStart, filter_index = 0, filter_env = [],
                filter_self = getGenerator S\<rparr>)"
    by (simp add: filter_s_def filter_stream_next filter_next_start)
  from filter_spy_delivers[OF generator_delivers_fresh this]
  obtain f' where d: "delivers ?st
       (map fst (filter (\<lambda>(item, index). p item index) (zip S [0..<length S])))
       (filter_stream (spy p) f')"
    and e: "filter_env f' = zip S [0..<length S]" by auto
  have "filter_env (iter_state (filter_stream (spy p) f')) = zip S [0..<length S]"
    using e by (simp add: filter_stream_def)
  with collect_delivers[OF d] show ?thesis by blast
qed

text \<open>
  Claim C9. For a finite source \<open>S\<close> and non-negative integers \<open>a\<close> and \<open>b\<close>,
  \<^verbatim>\<open>skip(a).skip(b).collect()\<close> and \<^verbatim>\<open>skip(a + b).collect()\<close> resolve to the same sequence,
  \<open>S\<close> without its first \<open>a + b\<close> items.
\<close>

theorem skip_skip_fuses:
  "then_collect (chain (skip (real a) (getGenerator S)) (skip (real b))) =
     then_collect (skip (real (a + b)) (getGenerator S))
   \<and> then_collect (skip (real (a + b)) (getGenerator S)) = Some (Inr (drop (a + b) S))"
proof -
  let ?src = "getGenerator S"
  from skip_delivers[OF generator_delivers_fresh, of a S]
  obtain f1 where d1: "delivers (skip_stream (real a)
        \<lparr>skip_pc = SkipStart, skip_count = 0, skip_self = ?src\<rparr>) (drop a S)
        (skip_stream (real a) f1)" by auto
  from skip_delivers[OF d1, of b]
  obtain f2 where d2: "delivers (skip_stream (real b)
        \<lparr>skip_pc = SkipStart, skip_count = 0,
         skip_self = skip_stream (real a)
            \<lparr>skip_pc = SkipStart, skip_count = 0, skip_self = ?src\<rparr>\<rparr>)
        (drop b (drop a S)) (skip_stream (real b) f2)" by auto
  from skip_delivers[OF generator_delivers_fresh, of "a + b" S]
  obtain f3 where d3: "delivers (skip_stream (real (a + b))
        \<lparr>skip_pc = SkipStart, skip_count = 0, skip_self = ?src\<rparr>) (drop (a + b) S)
        (skip_stream (real (a + b)) f3)" by auto
  have l: "then_collect (chain (skip (real a) ?src) (skip (real b))) = Some (Inr (drop (a + b) S))"
    using collect_delivers[OF d2] by (simp add: then_collect_def chain_def skip_def add.commute)
  have r: "then_collect (skip (real (a + b)) ?src) = Some (Inr (drop (a + b) S))"
    using collect_delivers[OF d3] by (simp add: then_collect_def skip_def)
  from l r show ?thesis by simp
qed

text \<open>
  Claim C10. For a positive \<open>packageSize\<close> that is not an integer and a non-empty finite
  source \<open>S\<close>, \<^verbatim>\<open>pack(packageSize)\<close> throws nothing; its first pull runs the source to
  exhaustion and yields one group holding all of \<open>S\<close> in order, the next pull reports
  completion, so \<^verbatim>\<open>collect()\<close> resolves to that single group.
\<close>

theorem pack_fraction_single_group:
  assumes "0 < packageSize" and "packageSize \<notin> \<nat>" and "S \<noteq> []"
  shows "\<exists>p p' p''.
           pack packageSize (getGenerator S) = Inr p
         \<and> AsyncStream_next p = Some (Inr (IterValue (Array S)), p')
         \<and> iter_state (pack_self (iter_state p')) = \<lparr>pending = [], pulls = Suc (length S)\<rparr>
         \<and> AsyncStream_next p' = Some (Inr IterDone, p'')
         \<and> then_collect (pack packageSize (getGenerator S)) = Some (Inr [Array S])"
proof -
  let ?p = "pack_stream packageSize \<lparr>pack_pc = PackStart, pack_buffer = [], pack_self = getGenerator S\<rparr>"
  let ?fin = "generator_stream \<lparr>pending = [], pulls = Suc (length S)\<rparr>"
  let ?f' = "\<lparr>pack_pc = PackYieldRest, pack_buffer = S, pack_self = ?fin\<rparr>"
  have p: "pack packageSize (getGenerator S) = Inr ?p" using assms(1) by (simp add: pack_def)
  have "\<forall>j. length [] < j \<and> j \<le> length [] + length S \<longrightarrow> real j \<noteq> packageSize"
    using assms(2) of_nat_in_Nats by blast
  from pack_loop_rest[OF generator_delivers_fresh this, of PackStart] assms(3)
  have n1: "AsyncStream_next ?p = Some (Inr (IterValue (Array S)), pack_stream packageSize ?f')"
    by (simp add: pack_stream_next pack_next_entry)
  have n2: "AsyncStream_next (pack_stream packageSize ?f') =
              Some (Inr IterDone, pack_stream packageSize (?f'\<lparr>pack_pc := PackCompleted\<rparr>))"
    by (simp add: pack_stream_next pack_next_rest)
  have "delivers ?p [Array S] (pack_stream packageSize (?f'\<lparr>pack_pc := PackCompleted\<rparr>))"
    using n1 n2 by (simp add: delivers_Cons delivers_Nil)
  from collect_delivers[OF this]
  have c: "then_collect (pack packageSize (getGenerator S)) = Some (Inr [Array S])"
    by (simp add: then_collect_def p)
  have s: "iter_state (pack_self (iter_state (pack_stream packageSize ?f'))) =
             \<lparr>pending = [], pulls = Suc (length S)\<rparr>"
    by (simp add: pack_stream_def generator_stream_def)
  from p n1 n2 c s show ?thesis by blast
qed

theorem pack_fraction_single_group_witness:
  "(0::real) < 5/2 \<and> (5/2::real) \<notin> \<nat> \<and> [Atom (1::nat), Atom 2, Atom 3] \<noteq> [] \<and>
   then_collect (pack (5/2) (getGenerator [Atom (1::nat), Atom 2, Atom 3])) =
     Some (Inr [Array [Atom 1, Atom 2, Atom 3]])"
proof -
  have f: "(5/2::real) \<notin> \<nat>"
  proof
    assume "(5/2::real) \<in> \<nat>"
    then obtain n :: nat where "real n = 5/2" by (auto simp: Nats_def)
    then have "real (2 * n) = real 5" by simp
    then have "2 * n = 5" by (simp only: of_nat_eq_iff)
    then show False by presburger
  qed
  have "(0::real) < 5/2" by simp
  from pack_fraction_single_group[OF this f, of "[Atom (1::nat), Atom 2, Atom 3]"] f
  show ?thesis by auto
qed

end
